theory Spec2Isabelle
  imports Main "HOL-Library.Extended_Nat"
begin

section \<open>Common types and errors\<close>

text \<open>
  \<^verbatim>\<open>frame_id_t\<close> and \<^verbatim>\<open>page_id_t\<close> are signed integer types declared in
  \<^verbatim>\<open>common/config.h\<close>; their values are kept as \<open>int\<close>. \<^verbatim>\<open>size_t\<close> values are
  natural numbers below \<open>2 ^ 64\<close>; an increment or decrement of a \<^verbatim>\<open>size_t\<close> is written
  with its wrap-around. The member names of the source end in an underscore, which is
  dropped here (\<^verbatim>\<open>history_\<close> is \<open>history\<close>); \<^verbatim>\<open>k_\<close> is \<open>k_lru\<close>.
\<close>

type_synonym frame_id_t = int
type_synonym page_id_t = int

datatype error =
  Exception string
  | UndefinedBehaviour

definition SIZE_MAX :: nat where
  "SIZE_MAX = 2 ^ 64 - 1"

text \<open>\<^verbatim>\<open>static_cast<size_t>(x)\<close> of a signed value, also the conversion of a signed index
  passed to \<^verbatim>\<open>std::vector::operator[]\<close>.\<close>

definition size_t_of :: "int \<Rightarrow> nat" where
  "size_t_of x = nat (x mod 2 ^ 64)"

definition size_t_inc :: "nat \<Rightarrow> nat" where
  "size_t_inc n = (n + 1) mod 2 ^ 64"

definition size_t_dec :: "nat \<Rightarrow> nat" where
  "size_t_dec n = (n + (2 ^ 64 - 1)) mod 2 ^ 64"

section \<open>The LRU-K replacer (lru\_k\_replacer.h, lru\_k\_replacer.cpp)\<close>

text \<open>\<^verbatim>\<open>struct LRUKNode\<close>: the queue \<open>history\<close> has its least recent timestamp in front
  (the head of the list).\<close>

record LRUKNode =
  history :: "nat list"
  timestamp_added :: nat
  is_evictable :: bool
  present_in_pq :: bool

definition LRUKNode_new :: "nat \<Rightarrow> LRUKNode" where
  "LRUKNode_new t =
     \<lparr>history = [t], timestamp_added = t, is_evictable = False, present_in_pq = True\<rparr>"

definition TIMESTAMP_NEG_INF :: nat where
  "TIMESTAMP_NEG_INF = 0"

record PQNode =
  frame_id :: frame_id_t
  kth_last_timestamp :: nat
  earliest_timestamp :: nat

text \<open>The constructor \<^verbatim>\<open>PQNode(frame_id, k, lruk_node)\<close>. \<^verbatim>\<open>history_.front()\<close> is \<open>hd\<close>;
  the queue is never empty where the constructor is called (\<open>replacer_inv\<close> below).\<close>

definition PQNode_new :: "frame_id_t \<Rightarrow> nat \<Rightarrow> LRUKNode \<Rightarrow> PQNode" where
  "PQNode_new f k node =
     \<lparr>frame_id = f,
      kth_last_timestamp = (if length (history node) = k then hd (history node) else TIMESTAMP_NEG_INF),
      earliest_timestamp = hd (history node)\<rparr>"

text \<open>\<^verbatim>\<open>PQNode::operator<\<close>: \<^verbatim>\<open>std::tie(kth, earliest) > std::tie(other.kth, other.earliest)\<close>.\<close>

definition PQNode_less :: "PQNode \<Rightarrow> PQNode \<Rightarrow> bool" where
  "PQNode_less a b \<longleftrightarrow>
     kth_last_timestamp b < kth_last_timestamp a
     \<or> (kth_last_timestamp b = kth_last_timestamp a \<and> earliest_timestamp b < earliest_timestamp a)"

text \<open>
  \<^verbatim>\<open>std::priority_queue<PQNode>\<close> is kept as the list of its entries. \<open>top\<close> is an entry
  that is not \<open>PQNode_less\<close> than any other (the first such entry of the list), \<open>pop\<close>
  removes it, \<open>emplace\<close> adds an entry.
\<close>

fun pq_top_from :: "PQNode \<Rightarrow> PQNode list \<Rightarrow> PQNode" where
  "pq_top_from b [] = b"
| "pq_top_from b (y # ys) = pq_top_from (if PQNode_less b y then y else b) ys"

definition pq_top :: "PQNode list \<Rightarrow> PQNode" where
  "pq_top xs = pq_top_from (hd xs) (tl xs)"

definition pq_pop :: "PQNode list \<Rightarrow> PQNode list" where
  "pq_pop xs = remove1 (pq_top xs) xs"

definition pq_emplace :: "PQNode \<Rightarrow> PQNode list \<Rightarrow> PQNode list" where
  "pq_emplace e xs = xs @ [e]"

record LRUKReplacer =
  replacer_size :: nat
  node_store :: "LRUKNode option list"
  pq :: "PQNode list"
  current_timestamp :: nat
  k_lru :: nat
  num_evictable :: nat

definition LRUKReplacer_new :: "nat \<Rightarrow> nat \<Rightarrow> LRUKReplacer" where
  "LRUKReplacer_new num_frames k =
     \<lparr>replacer_size = num_frames,
      node_store = replicate num_frames None,
      pq = [],
      current_timestamp = 1,
      k_lru = k,
      num_evictable = 0\<rparr>"

subsection \<open>RecordAccess\<close>

definition RecordAccess :: "LRUKReplacer \<Rightarrow> frame_id_t \<Rightarrow> error + LRUKReplacer" where
  "RecordAccess s f =
     (if size_t_of f \<ge> replacer_size s then Inl (Exception ''Invalid frame_id'')
      else
        (case node_store s ! size_t_of f of
           None \<Rightarrow>
             (let node = LRUKNode_new (current_timestamp s) in
              Inr (s\<lparr>node_store := (node_store s)[size_t_of f := Some node],
                     pq := pq_emplace (PQNode_new f (k_lru s) node) (pq s),
                     current_timestamp := size_t_inc (current_timestamp s)\<rparr>))
         | Some node \<Rightarrow>
             (let h = (if length (history node) = k_lru s then tl (history node) else history node);
                  node' = node\<lparr>history := h @ [current_timestamp s]\<rparr> in
              Inr (s\<lparr>node_store := (node_store s)[size_t_of f := Some node'],
                     current_timestamp := size_t_inc (current_timestamp s)\<rparr>))))"

subsection \<open>SetEvictable\<close>

definition SetEvictable :: "LRUKReplacer \<Rightarrow> frame_id_t \<Rightarrow> bool \<Rightarrow> error + LRUKReplacer" where
  "SetEvictable s f set_evictable =
     (if size_t_of f \<ge> replacer_size s then Inl (Exception ''Invalid frame_id'')
      else
        (case node_store s ! size_t_of f of
           None \<Rightarrow> Inl (Exception ''Invalid frame_id'')
         | Some node \<Rightarrow>
             if is_evictable node = set_evictable then Inr s
             else if set_evictable then
               (let node1 = node\<lparr>is_evictable := True\<rparr> in
                if \<not> present_in_pq node1 then
                  Inr (s\<lparr>pq := pq_emplace (PQNode_new f (k_lru s) node1) (pq s),
                         node_store := (node_store s)[size_t_of f := Some (node1\<lparr>present_in_pq := True\<rparr>)],
                         num_evictable := size_t_inc (num_evictable s)\<rparr>)
                else
                  Inr (s\<lparr>node_store := (node_store s)[size_t_of f := Some node1],
                         num_evictable := size_t_inc (num_evictable s)\<rparr>))
             else
               Inr (s\<lparr>node_store := (node_store s)[size_t_of f := Some (node\<lparr>is_evictable := False\<rparr>)],
                      num_evictable := size_t_dec (num_evictable s)\<rparr>)))"

subsection \<open>Remove\<close>

definition Remove :: "LRUKReplacer \<Rightarrow> frame_id_t \<Rightarrow> error + LRUKReplacer" where
  "Remove s f =
     (if size_t_of f \<ge> replacer_size s then Inl (Exception ''Invalid frame_id'')
      else
        (case node_store s ! size_t_of f of
           None \<Rightarrow> Inl (Exception ''Invalid frame_id'')
         | Some node \<Rightarrow>
             if \<not> is_evictable node then Inl (Exception ''Frame not evictable'')
             else Inr (s\<lparr>node_store := (node_store s)[size_t_of f := None]\<rparr>)))"

subsection \<open>Size\<close>

definition Size :: "LRUKReplacer \<Rightarrow> nat" where
  "Size s = num_evictable s"

subsection \<open>Evict\<close>

text \<open>
  One pass through the body of the \<^verbatim>\<open>while (not pq_.empty())\<close> loop, entered with a
  non-empty queue: \<open>Continue\<close> is \<^verbatim>\<open>continue\<close>, \<open>Evicted\<close> is \<^verbatim>\<open>return true\<close> with the
  frame written to \<^verbatim>\<open>*frame_id\<close>. Indexing \<^verbatim>\<open>node_store_\<close> beyond its size is undefined
  behaviour (\<open>OutOfRange\<close>).
\<close>

datatype evict_step =
  Continue LRUKReplacer
  | Evicted LRUKReplacer frame_id_t
  | OutOfRange

text \<open>The part of the loop body after the two staleness tests.\<close>

definition Evict_tail :: "LRUKReplacer \<Rightarrow> PQNode \<Rightarrow> LRUKNode \<Rightarrow> evict_step" where
  "Evict_tail s1 tp node =
     (if \<not> is_evictable node then
        Continue (s1\<lparr>node_store :=
          (node_store s1)[size_t_of (frame_id tp) := Some (node\<lparr>present_in_pq := False\<rparr>)]\<rparr>)
      else
        Evicted (s1\<lparr>node_store := (node_store s1)[size_t_of (frame_id tp) := None],
                    num_evictable := size_t_dec (num_evictable s1)\<rparr>)
                (frame_id tp))"

definition Evict_body :: "LRUKReplacer \<Rightarrow> evict_step" where
  "Evict_body s =
     (let tp = pq_top (pq s);
          s1 = s\<lparr>pq := pq_pop (pq s)\<rparr> in
      if length (node_store s1) \<le> size_t_of (frame_id tp) then OutOfRange
      else
        (case node_store s1 ! size_t_of (frame_id tp) of
           None \<Rightarrow> Continue s1
         | Some node \<Rightarrow>
             if timestamp_added node > earliest_timestamp tp then Continue s1
             else if length (history node) = k_lru s1 then
               (if kth_last_timestamp tp \<noteq> hd (history node) then
                  Continue (s1\<lparr>pq := pq_emplace (PQNode_new (frame_id tp) (k_lru s1) node) (pq s1)\<rparr>)
                else Evict_tail s1 tp node)
             else
               (if kth_last_timestamp tp \<noteq> TIMESTAMP_NEG_INF
                   \<or> earliest_timestamp tp \<noteq> hd (history node) then
                  Continue (s1\<lparr>pq := pq_emplace (PQNode_new (frame_id tp) (k_lru s1) node) (pq s1)\<rparr>)
                else Evict_tail s1 tp node)))"

text \<open>An entry that the loop body would replace by a fresh one.\<close>

definition outdated :: "LRUKReplacer \<Rightarrow> PQNode \<Rightarrow> bool" where
  "outdated s e =
     (size_t_of (frame_id e) < length (node_store s) \<and>
      (case node_store s ! size_t_of (frame_id e) of
         None \<Rightarrow> False
       | Some node \<Rightarrow>
           \<not> timestamp_added node > earliest_timestamp e \<and>
           (if length (history node) = k_lru s then kth_last_timestamp e \<noteq> hd (history node)
            else kth_last_timestamp e \<noteq> TIMESTAMP_NEG_INF
                 \<or> earliest_timestamp e \<noteq> hd (history node))))"

definition evict_measure :: "LRUKReplacer \<Rightarrow> nat" where
  "evict_measure s = length (pq s) + length (filter (outdated s) (pq s))"

lemma pq_top_from_mem: "pq_top_from b ys \<in> set (b # ys)"
  by (induction ys arbitrary: b) auto

lemma pq_top_mem: "xs \<noteq> [] \<Longrightarrow> pq_top xs \<in> set xs"
  using pq_top_from_mem [of "hd xs" "tl xs"] by (cases xs) (auto simp: pq_top_def)

lemma length_pq_pop: "xs \<noteq> [] \<Longrightarrow> length (pq_pop xs) = length xs - 1"
  by (simp add: pq_pop_def pq_top_mem length_remove1)

lemma length_filter_remove1_le: "length (filter P (remove1 x xs)) \<le> length (filter P xs)"
  by (induction xs) auto

lemma length_filter_remove1_less:
  "x \<in> set xs \<Longrightarrow> P x \<Longrightarrow> length (filter P (remove1 x xs)) < length (filter P xs)"
  by (induction xs) (auto simp: less_Suc_eq_le length_filter_remove1_le)

lemma outdated_pq_update [simp]: "outdated (s\<lparr>pq := q\<rparr>) e = outdated s e"
  by (simp add: outdated_def split: option.splits)

lemma outdated_present_update:
  "node_store s ! i = Some node \<Longrightarrow>
   outdated (s\<lparr>node_store := (node_store s)[i := Some (node\<lparr>present_in_pq := False\<rparr>)]\<rparr>) e
     = outdated s e"
  by (cases "i = size_t_of (frame_id e)") (auto simp: outdated_def split: option.splits)

lemma not_outdated_fresh:
  "node_store s ! size_t_of f = Some node \<Longrightarrow> \<not> outdated s (PQNode_new f (k_lru s) node)"
  by (simp add: outdated_def PQNode_new_def TIMESTAMP_NEG_INF_def)

lemma outdated_pq_update_fun [simp]: "outdated (s\<lparr>pq := q\<rparr>) = outdated s"
  by (simp add: fun_eq_iff)

lemma Evict_body_measure:
  assumes "pq s \<noteq> []" "Evict_body s = Continue s'"
  shows "evict_measure s' < evict_measure s"
proof -
  let ?t = "pq_top (pq s)"
  let ?i = "size_t_of (frame_id ?t)"
  have mem: "?t \<in> set (pq s)" using assms(1) by (rule pq_top_mem)
  have len: "length (pq_pop (pq s)) < length (pq s)"
    using assms(1) by (simp add: length_pq_pop)
  have le: "length (filter (outdated s) (pq_pop (pq s))) \<le> length (filter (outdated s) (pq s))"
    by (simp add: pq_pop_def length_filter_remove1_le)
  show ?thesis
  proof (cases "outdated s ?t")
    case True
    then have lt: "length (filter (outdated s) (pq_pop (pq s))) < length (filter (outdated s) (pq s))"
      using mem by (simp add: pq_pop_def length_filter_remove1_less)
    from True obtain node where n: "node_store s ! ?i = Some node" and r: "?i < length (node_store s)"
      by (auto simp: outdated_def split: option.splits)
    have fresh: "\<not> outdated s (PQNode_new (frame_id ?t) (k_lru s) node)"
      using n by (rule not_outdated_fresh)
    from True n r assms(2) have "s' = s\<lparr>pq := pq_emplace (PQNode_new (frame_id ?t) (k_lru s) node) (pq_pop (pq s))\<rparr>"
      by (auto simp: Evict_body_def Let_def outdated_def split: if_splits)
    then show ?thesis using lt fresh len assms(1)
      by (simp add: evict_measure_def pq_emplace_def length_pq_pop)
  next
    case False
    with assms(2) have "s' = s\<lparr>pq := pq_pop (pq s)\<rparr> \<or>
      (\<exists>node. node_store s ! ?i = Some node \<and> s' = s\<lparr>pq := pq_pop (pq s), node_store := (node_store s)[?i := Some (node\<lparr>present_in_pq := False\<rparr>)]\<rparr>)"
      by (auto simp: Evict_body_def Let_def outdated_def Evict_tail_def split: if_splits option.splits)
    then show ?thesis
    proof
      assume "s' = s\<lparr>pq := pq_pop (pq s)\<rparr>"
      then show ?thesis using len le by (simp add: evict_measure_def)
    next
      assume "\<exists>node. node_store s ! ?i = Some node \<and> s' = s\<lparr>pq := pq_pop (pq s), node_store := (node_store s)[?i := Some (node\<lparr>present_in_pq := False\<rparr>)]\<rparr>"
      then obtain node where n: "node_store s ! ?i = Some node"
        and s': "s' = s\<lparr>pq := pq_pop (pq s), node_store := (node_store s)[?i := Some (node\<lparr>present_in_pq := False\<rparr>)]\<rparr>" by blast
      have "outdated s' e = outdated s e" for e
        using outdated_present_update [of "s\<lparr>pq := pq_pop (pq s)\<rparr>" ?i node e] n
        by (simp add: s')
      then have "outdated s' = outdated s" by (simp add: fun_eq_iff)
      then show ?thesis using len le by (simp add: evict_measure_def s')
    qed
  qed
qed

function Evict :: "LRUKReplacer \<Rightarrow> error + (LRUKReplacer \<times> frame_id_t option)" where
  "Evict s =
     (if pq s = [] then Inr (s, None)
      else
        (case Evict_body s of
           Continue s' \<Rightarrow> Evict s'
         | Evicted s' f \<Rightarrow> Inr (s', Some f)
         | OutOfRange \<Rightarrow> Inl UndefinedBehaviour))"
  by pat_completeness auto

termination
  by (relation "measure evict_measure") (auto simp: Evict_body_measure)


text \<open>
  Sequences of calls. A call that throws leaves the replacer as it was (every
  \<^verbatim>\<open>throw\<close> of the source precedes the first assignment), and the caller goes on.
\<close>

datatype replacer_op =
  OpRecordAccess frame_id_t
  | OpSetEvictable frame_id_t bool
  | OpRemove frame_id_t
  | OpEvict

fun apply_op :: "LRUKReplacer \<Rightarrow> replacer_op \<Rightarrow> LRUKReplacer" where
  "apply_op s (OpRecordAccess f) = (case RecordAccess s f of Inl e \<Rightarrow> s | Inr s' \<Rightarrow> s')"
| "apply_op s (OpSetEvictable f b) = (case SetEvictable s f b of Inl e \<Rightarrow> s | Inr s' \<Rightarrow> s')"
| "apply_op s (OpRemove f) = (case Remove s f of Inl e \<Rightarrow> s | Inr s' \<Rightarrow> s')"
| "apply_op s OpEvict = (case Evict s of Inl e \<Rightarrow> s | Inr (s', r) \<Rightarrow> s')"

definition run_ops :: "LRUKReplacer \<Rightarrow> replacer_op list \<Rightarrow> LRUKReplacer" where
  "run_ops s ops = foldl apply_op s ops"

text \<open>The number of frames whose node exists and is evictable.\<close>

definition evictable_node :: "LRUKNode option \<Rightarrow> bool" where
  "evictable_node n = (case n of None \<Rightarrow> False | Some node \<Rightarrow> is_evictable node)"

definition evictable_count :: "LRUKReplacer \<Rightarrow> nat" where
  "evictable_count s = length (filter evictable_node (node_store s))"

lemmas replacer_defs =
  LRUKReplacer_new_def RecordAccess_def SetEvictable_def Remove_def Size_def
  size_t_of_def size_t_inc_def size_t_dec_def LRUKNode_new_def PQNode_new_def
  pq_emplace_def pq_top_def pq_pop_def PQNode_less_def TIMESTAMP_NEG_INF_def
  Evict_body_def Evict_tail_def run_ops_def evictable_count_def evictable_node_def

subsection \<open>The invariant of the replacer\<close>

lemma PQNode_less_irrefl [simp]: "\<not> PQNode_less a a"
  by (simp add: PQNode_less_def)

lemma PQNode_not_less_trans:
  "\<not> PQNode_less a b \<Longrightarrow> \<not> PQNode_less b c \<Longrightarrow> \<not> PQNode_less a c"
  by (auto simp: PQNode_less_def)

lemma PQNode_less_not_less_trans:
  "\<not> PQNode_less a b \<Longrightarrow> PQNode_less c b \<Longrightarrow> \<not> PQNode_less a c"
  by (auto simp: PQNode_less_def)

lemma pq_top_from_least: "x \<in> set (b # ys) \<Longrightarrow> \<not> PQNode_less (pq_top_from b ys) x"
proof (induction ys arbitrary: b x)
  case Nil
  then show ?case by simp
next
  case (Cons y ys)
  let ?b = "if PQNode_less b y then y else b"
  have r: "\<not> PQNode_less (pq_top_from ?b ys) ?b"
    using Cons.IH [where x = ?b and b = ?b] by simp
  show ?case
  proof (cases "x \<in> set ys")
    case True
    then show ?thesis using Cons.IH [where x = x and b = ?b] by simp
  next
    case False
    with Cons.prems have "x = b \<or> x = y" by auto
    then show ?thesis using r
      by (auto split: if_splits simp: PQNode_less_def)
  qed
qed

lemma pq_top_least: "x \<in> set xs \<Longrightarrow> \<not> PQNode_less (pq_top xs) x"
  using pq_top_from_least [of x "hd xs" "tl xs"] by (cases xs) (auto simp: pq_top_def)

text \<open>
  What holds of a node in slot \<open>i\<close>: its history is not empty, increasing, made of
  timestamps that have been handed out, and starts no earlier than the node was added;
  an evictable node is marked as present in the queue; and for a node marked as
  present the queue has an entry for the slot, taken from this node (not from a node
  that was in the slot before), whose snapshot is not beyond the node's present one.
\<close>

definition node_ok :: "LRUKReplacer \<Rightarrow> nat \<Rightarrow> LRUKNode \<Rightarrow> bool" where
  "node_ok s i node \<longleftrightarrow>
     history node \<noteq> [] \<and> sorted (history node)
     \<and> (\<forall>t \<in> set (history node). 0 < t \<and> t < current_timestamp s)
     \<and> timestamp_added node \<le> hd (history node)
     \<and> (is_evictable node \<longrightarrow> present_in_pq node)
     \<and> (present_in_pq node \<longrightarrow>
          (\<exists>e \<in> set (pq s). size_t_of (frame_id e) = i
             \<and> timestamp_added node \<le> earliest_timestamp e
             \<and> \<not> PQNode_less e (PQNode_new (frame_id e) (k_lru s) node)))"

definition replacer_inv :: "LRUKReplacer \<Rightarrow> bool" where
  "replacer_inv s \<longleftrightarrow>
     length (node_store s) = replacer_size s
     \<and> 0 < current_timestamp s
     \<and> (\<forall>i < length (node_store s). \<forall>node. node_store s ! i = Some node \<longrightarrow> node_ok s i node)
     \<and> (\<forall>e \<in> set (pq s). size_t_of (frame_id e) < replacer_size s)
     \<and> (\<forall>i < length (node_store s). \<forall>j < length (node_store s). \<forall>ni nj.
           i \<noteq> j \<and> node_store s ! i = Some ni \<and> node_store s ! j = Some nj
             \<longrightarrow> set (history ni) \<inter> set (history nj) = {})"

lemma replacer_inv_new: "replacer_inv (LRUKReplacer_new n k)"
  by (simp add: replacer_inv_def LRUKReplacer_new_def)

lemma node_ok_mono:
  "node_ok s i node \<Longrightarrow> set (pq s) \<subseteq> set (pq s') \<Longrightarrow> k_lru s' = k_lru s \<Longrightarrow>
   current_timestamp s \<le> current_timestamp s' \<Longrightarrow> node_ok s' i node"
  unfolding node_ok_def by (auto 4 4)

lemma in_set_tl: "x \<in> set (tl xs) \<Longrightarrow> x \<in> set xs"
  by (cases xs) auto

lemma key_grows:
  assumes "history node \<noteq> []" "sorted (history node)" "\<forall>t \<in> set (history node). t < ct"
    "\<not> PQNode_less e (PQNode_new f k node)"
  shows "\<not> PQNode_less e (PQNode_new f k
      (node\<lparr>history := (if length (history node) = k then tl (history node) else history node) @ [ct]\<rparr>))"
proof (cases "history node")
  case Nil
  with assms show ?thesis by simp
next
  case (Cons a as)
  show ?thesis
  proof (cases as)
    case Nil
    with Cons assms show ?thesis
      by (auto simp: PQNode_less_def PQNode_new_def TIMESTAMP_NEG_INF_def)
  next
    case (Cons b bs)
    with \<open>history node = a # as\<close> assms show ?thesis
      by (auto simp: PQNode_less_def PQNode_new_def TIMESTAMP_NEG_INF_def)
  qed
qed

lemma RecordAccess_inv:
  assumes inv: "replacer_inv s" and r: "RecordAccess s f = Inr s'"
    and nowrap: "current_timestamp s < 2 ^ 64 - 1"
  shows "replacer_inv s' \<and> current_timestamp s' = current_timestamp s + 1"
proof -
  let ?i = "size_t_of f"
  let ?ct = "current_timestamp s"
  from r have rng: "?i < replacer_size s" by (auto simp: RecordAccess_def split: if_splits)
  from inv have len: "length (node_store s) = replacer_size s" and ct0: "0 < ?ct"
    and ok: "\<And>i node. i < length (node_store s) \<Longrightarrow> node_store s ! i = Some node \<Longrightarrow> node_ok s i node"
    and inr: "\<And>e. e \<in> set (pq s) \<Longrightarrow> size_t_of (frame_id e) < replacer_size s"
    and dis: "\<And>i j ni nj. i < length (node_store s) \<Longrightarrow> j < length (node_store s) \<Longrightarrow> i \<noteq> j \<Longrightarrow>
        node_store s ! i = Some ni \<Longrightarrow> node_store s ! j = Some nj \<Longrightarrow> set (history ni) \<inter> set (history nj) = {}"
    unfolding replacer_inv_def by blast+
  have inc: "size_t_inc ?ct = ?ct + 1" using nowrap by (simp add: size_t_inc_def)
  show ?thesis
  proof (cases "node_store s ! ?i")
    case None
    let ?n = "LRUKNode_new ?ct"
    let ?e = "PQNode_new f (k_lru s) ?n"
    from r None rng inc have s': "s' = s\<lparr>node_store := (node_store s)[?i := Some ?n],
        pq := pq s @ [?e], current_timestamp := ?ct + 1\<rparr>"
      by (simp add: RecordAccess_def Let_def pq_emplace_def)
    have new_ok: "node_ok s' ?i ?n"
      using ct0 by (auto simp: node_ok_def s' LRUKNode_new_def PQNode_new_def)
    have old_ok: "node_ok s' j node" if "j < length (node_store s)" "node_store s ! j = Some node" for j node
      using ok [OF that] by (rule node_ok_mono) (auto simp: s')
    have hist: "t < ?ct" if "j < length (node_store s)" "node_store s ! j = Some node" "t \<in> set (history node)" for j node t
      using ok [OF that(1,2)] that(3) by (auto simp: node_ok_def)
    have "replacer_inv s'"
      unfolding replacer_inv_def
    proof (intro conjI allI impI ballI)
      show "length (node_store s') = replacer_size s'" using len by (simp add: s')
      show "0 < current_timestamp s'" by (simp add: s')
      show "node_ok s' i node" if "i < length (node_store s')" "node_store s' ! i = Some node" for i node
        using that new_ok old_ok by (cases "i = ?i") (auto simp: s')
      show "size_t_of (frame_id e) < replacer_size s'" if "e \<in> set (pq s')" for e
        using that inr rng by (auto simp: s' PQNode_new_def)
      show "set (history ni) \<inter> set (history nj) = {}"
        if "i < length (node_store s')" "j < length (node_store s')"
          "i \<noteq> j \<and> node_store s' ! i = Some ni \<and> node_store s' ! j = Some nj" for i j ni nj
      proof -
        consider "i = ?i" | "j = ?i" | "i \<noteq> ?i" "j \<noteq> ?i" by blast
        then show ?thesis
        proof cases
          case 1
          with that have nj: "node_store s ! j = Some nj" "j < length (node_store s)"
            and ni: "history ni = [?ct]" by (auto simp: s' LRUKNode_new_def)
          have "?ct \<notin> set (history nj)" using hist [OF nj(2) nj(1)] by blast
          then show ?thesis using ni by simp
        next
          case 2
          with that have ni: "node_store s ! i = Some ni" "i < length (node_store s)"
            and nj: "history nj = [?ct]" by (auto simp: s' LRUKNode_new_def)
          have "?ct \<notin> set (history ni)" using hist [OF ni(2) ni(1)] by blast
          then show ?thesis using nj by simp
        next
          case 3
          with that dis [of i j ni nj] show ?thesis by (simp add: s')
        qed
      qed
    qed
    then show ?thesis by (simp add: s')
  next
    case (Some node)
    let ?h = "(if length (history node) = k_lru s then tl (history node) else history node) @ [?ct]"
    let ?n = "node\<lparr>history := ?h\<rparr>"
    from r Some rng inc have s': "s' = s\<lparr>node_store := (node_store s)[?i := Some ?n],
        current_timestamp := ?ct + 1\<rparr>"
      by (simp add: RecordAccess_def Let_def)
    have nok: "node_ok s ?i node" using ok [of ?i node] Some rng len by simp
    have hist: "t < ?ct" if "j < length (node_store s)" "node_store s ! j = Some nd" "t \<in> set (history nd)" for j nd t
      using ok [OF that(1,2)] that(3) by (auto simp: node_ok_def)
    have sub: "set ?h \<subseteq> insert ?ct (set (history node))"
      by (auto dest: in_set_tl)
    have new_ok: "node_ok s' ?i ?n"
    proof -
      from nok have ne: "history node \<noteq> []" and so: "sorted (history node)"
        and bd: "\<forall>t \<in> set (history node). 0 < t \<and> t < ?ct"
        and ad: "timestamp_added node \<le> hd (history node)"
        and ev: "is_evictable node \<longrightarrow> present_in_pq node"
        and wi: "present_in_pq node \<longrightarrow> (\<exists>e \<in> set (pq s). size_t_of (frame_id e) = ?i
             \<and> timestamp_added node \<le> earliest_timestamp e
             \<and> \<not> PQNode_less e (PQNode_new (frame_id e) (k_lru s) node))"
        unfolding node_ok_def by blast+
      have so_tl: "sorted (tl (history node))" using so by (cases "history node") auto
      have 1: "?h \<noteq> []" by simp
      have 2: "sorted ?h" using so so_tl bd sub
        by (auto simp: sorted_append dest!: in_set_tl intro: less_imp_le)
      have 3: "\<forall>t \<in> set ?h. 0 < t \<and> t < ?ct + 1" using sub bd ct0 by fastforce
      have 4: "timestamp_added node \<le> hd ?h"
      proof (cases "history node")
        case Nil
        with ne show ?thesis by simp
      next
        case (Cons a as)
        with ad so bd show ?thesis by (cases as) (auto intro: less_imp_le)
      qed
      have 5: "present_in_pq node \<longrightarrow> (\<exists>e \<in> set (pq s). size_t_of (frame_id e) = ?i
             \<and> timestamp_added node \<le> earliest_timestamp e
             \<and> \<not> PQNode_less e (PQNode_new (frame_id e) (k_lru s) ?n))"
        using wi key_grows [OF ne so, of ?ct _ _ "k_lru s"] bd by blast
      show ?thesis unfolding node_ok_def using 1 2 3 4 5 ev by (simp add: s')
    qed
    have old_ok: "node_ok s' j nd" if "j < length (node_store s)" "node_store s ! j = Some nd" for j nd
      using ok [OF that] by (rule node_ok_mono) (auto simp: s')
    have "replacer_inv s'"
      unfolding replacer_inv_def
    proof (intro conjI allI impI ballI)
      show "length (node_store s') = replacer_size s'" using len by (simp add: s')
      show "0 < current_timestamp s'" by (simp add: s')
      show "node_ok s' i nd" if "i < length (node_store s')" "node_store s' ! i = Some nd" for i nd
        using that new_ok old_ok by (cases "i = ?i") (auto simp: s')
      show "size_t_of (frame_id e) < replacer_size s'" if "e \<in> set (pq s')" for e
        using that inr rng by (auto simp: s')
      show "set (history ni) \<inter> set (history nj) = {}"
        if "i < length (node_store s')" "j < length (node_store s')"
          "i \<noteq> j \<and> node_store s' ! i = Some ni \<and> node_store s' ! j = Some nj" for i j ni nj
      proof -
        consider "i = ?i" | "j = ?i" | "i \<noteq> ?i" "j \<noteq> ?i" by blast
        then show ?thesis
        proof cases
          case 1
          with that have nj: "node_store s ! j = Some nj" "ni = ?n" "j < length (node_store s)" by (auto simp: s')
          have "set (history node) \<inter> set (history nj) = {}"
            using dis [of ?i j node nj] Some nj 1 that rng len by auto
          moreover have "?ct \<notin> set (history nj)" using hist [OF nj(3) nj(1)] by auto
          ultimately show ?thesis using sub nj(2) by auto
        next
          case 2
          with that have ni: "node_store s ! i = Some ni" "nj = ?n" "i < length (node_store s)" by (auto simp: s')
          have "set (history ni) \<inter> set (history node) = {}"
            using dis [of i ?i ni node] Some ni 2 that rng len by auto
          moreover have "?ct \<notin> set (history ni)" using hist [OF ni(3) ni(1)] by auto
          ultimately show ?thesis using sub ni(2) by auto
        next
          case 3
          with that dis [of i j ni nj] show ?thesis by (simp add: s')
        qed
      qed
    qed
    then show ?thesis by (simp add: s')
  qed
qed

lemma replacer_inv_step:
  assumes inv: "replacer_inv s"
    and rng: "i < replacer_size s"
    and q: "\<forall>e \<in> set q'. size_t_of (frame_id e) < replacer_size s"
    and keep: "\<forall>e \<in> set (pq s). size_t_of (frame_id e) \<noteq> i \<longrightarrow> e \<in> set q'"
    and slot: "\<forall>n'. x' = Some n' \<longrightarrow>
          (\<exists>node. node_store s ! i = Some node \<and> history n' = history node
             \<and> timestamp_added n' = timestamp_added node)
          \<and> (is_evictable n' \<longrightarrow> present_in_pq n')
          \<and> (present_in_pq n' \<longrightarrow>
               (\<exists>e \<in> set q'. size_t_of (frame_id e) = i
                  \<and> timestamp_added n' \<le> earliest_timestamp e
                  \<and> \<not> PQNode_less e (PQNode_new (frame_id e) (k_lru s) n')))"
  shows "replacer_inv (s\<lparr>node_store := (node_store s)[i := x'], pq := q', num_evictable := x\<rparr>)"
proof -
  let ?s' = "s\<lparr>node_store := (node_store s)[i := x'], pq := q', num_evictable := x\<rparr>"
  from inv have len: "length (node_store s) = replacer_size s" and ct0: "0 < current_timestamp s"
    and ok: "\<And>i node. i < length (node_store s) \<Longrightarrow> node_store s ! i = Some node \<Longrightarrow> node_ok s i node"
    and dis: "\<And>i j ni nj. i < length (node_store s) \<Longrightarrow> j < length (node_store s) \<Longrightarrow> i \<noteq> j \<Longrightarrow>
        node_store s ! i = Some ni \<Longrightarrow> node_store s ! j = Some nj \<Longrightarrow> set (history ni) \<inter> set (history nj) = {}"
    unfolding replacer_inv_def by blast+
  have other: "node_ok ?s' j nd" if "j < length (node_store s)" "node_store s ! j = Some nd" "j \<noteq> i" for j nd
  proof -
    from ok [OF that(1,2)] have o: "node_ok s j nd" .
    then have "present_in_pq nd \<longrightarrow> (\<exists>e \<in> set q'. size_t_of (frame_id e) = j
             \<and> timestamp_added nd \<le> earliest_timestamp e
             \<and> \<not> PQNode_less e (PQNode_new (frame_id e) (k_lru s) nd))"
      using keep that(3) unfolding node_ok_def by blast
    with o show ?thesis unfolding node_ok_def by simp
  qed
  have this_ok: "node_ok ?s' i n'" if "x' = Some n'" for n'
  proof -
    from slot that obtain node where n: "node_store s ! i = Some node" "history n' = history node"
      "timestamp_added n' = timestamp_added node" by blast
    from ok [of i node] n rng len have "node_ok s i node" by simp
    with n slot that show ?thesis unfolding node_ok_def by simp
  qed
  have hist_eq: "\<exists>node. node_store s ! i = Some node \<and> history n' = history node" if "x' = Some n'" for n'
    using slot that by blast
  show ?thesis
    unfolding replacer_inv_def
  proof (intro conjI allI impI ballI)
    show "length (node_store ?s') = replacer_size ?s'" using len by simp
    show "0 < current_timestamp ?s'" using ct0 by simp
    show "node_ok ?s' j nd" if "j < length (node_store ?s')" "node_store ?s' ! j = Some nd" for j nd
      using that other this_ok by (cases "j = i") auto
    show "size_t_of (frame_id e) < replacer_size ?s'" if "e \<in> set (pq ?s')" for e
      using that q by simp
    show "set (history ni) \<inter> set (history nj) = {}"
      if "a < length (node_store ?s')" "b < length (node_store ?s')"
        "a \<noteq> b \<and> node_store ?s' ! a = Some ni \<and> node_store ?s' ! b = Some nj" for a b ni nj
    proof -
      consider "a = i" | "b = i" | "a \<noteq> i" "b \<noteq> i" by blast
      then show ?thesis
      proof cases
        case 1
        with that have "x' = Some ni" "node_store s ! b = Some nj" by auto
        with hist_eq [of ni] obtain node where "node_store s ! i = Some node" "history ni = history node"
          by blast
        with dis [of i b node nj] that 1 \<open>node_store s ! b = Some nj\<close> show ?thesis by simp
      next
        case 2
        with that have "x' = Some nj" "node_store s ! a = Some ni" by auto
        with hist_eq [of nj] obtain node where "node_store s ! i = Some node" "history nj = history node"
          by blast
        with dis [of a i ni node] that 2 \<open>node_store s ! a = Some ni\<close> show ?thesis by simp
      next
        case 3
        with that dis [of a b ni nj] show ?thesis by simp
      qed
    qed
  qed
qed

lemma SetEvictable_inv:
  assumes inv: "replacer_inv s" and r: "SetEvictable s f b = Inr s'"
  shows "replacer_inv s' \<and> current_timestamp s' = current_timestamp s"
proof -
  let ?i = "size_t_of f"
  from r have rng: "?i < replacer_size s" by (auto simp: SetEvictable_def split: if_splits)
  from r rng obtain node where n: "node_store s ! ?i = Some node"
    by (auto simp: SetEvictable_def split: option.splits)
  from inv have len: "length (node_store s) = replacer_size s"
    and inr: "\<forall>e \<in> set (pq s). size_t_of (frame_id e) < replacer_size s"
    unfolding replacer_inv_def by blast+
  from inv n rng len have nok: "node_ok s ?i node" unfolding replacer_inv_def by simp
  consider (same) "s' = s"
    | (push) "b" "\<not> present_in_pq node"
        "s' = s\<lparr>node_store := (node_store s)[?i := Some (node\<lparr>is_evictable := True, present_in_pq := True\<rparr>)],
               pq := pq s @ [PQNode_new f (k_lru s) (node\<lparr>is_evictable := True\<rparr>)],
               num_evictable := size_t_inc (num_evictable s)\<rparr>"
    | (set) "b" "present_in_pq node"
        "s' = s\<lparr>node_store := (node_store s)[?i := Some (node\<lparr>is_evictable := True\<rparr>)],
               pq := pq s, num_evictable := size_t_inc (num_evictable s)\<rparr>"
    | (unset) "\<not> b"
        "s' = s\<lparr>node_store := (node_store s)[?i := Some (node\<lparr>is_evictable := False\<rparr>)],
               pq := pq s, num_evictable := size_t_dec (num_evictable s)\<rparr>"
    using r rng n by (auto simp: SetEvictable_def Let_def pq_emplace_def split: if_splits)
  then show ?thesis
  proof cases
    case same
    with inv show ?thesis by simp
  next
    case push
    have "replacer_inv s'" unfolding push(3)
    proof (rule replacer_inv_step [OF inv rng])
      show "\<forall>e\<in>set (pq s @ [PQNode_new f (k_lru s) (node\<lparr>is_evictable := True\<rparr>)]).
          size_t_of (frame_id e) < replacer_size s"
        using inr rng by (auto simp: PQNode_new_def)
      show "\<forall>e\<in>set (pq s). size_t_of (frame_id e) \<noteq> ?i \<longrightarrow>
          e \<in> set (pq s @ [PQNode_new f (k_lru s) (node\<lparr>is_evictable := True\<rparr>)])"
        by simp
      show "\<forall>n'. Some (node\<lparr>is_evictable := True, present_in_pq := True\<rparr>) = Some n' \<longrightarrow>
          (\<exists>nodea. node_store s ! ?i = Some nodea \<and> history n' = history nodea
             \<and> timestamp_added n' = timestamp_added nodea)
          \<and> (is_evictable n' \<longrightarrow> present_in_pq n')
          \<and> (present_in_pq n' \<longrightarrow>
               (\<exists>e \<in> set (pq s @ [PQNode_new f (k_lru s) (node\<lparr>is_evictable := True\<rparr>)]).
                  size_t_of (frame_id e) = ?i
                  \<and> timestamp_added n' \<le> earliest_timestamp e
                  \<and> \<not> PQNode_less e (PQNode_new (frame_id e) (k_lru s) n')))"
        using n nok by (auto simp: node_ok_def PQNode_new_def PQNode_less_def)
    qed
    then show ?thesis by (simp add: push(3))
  next
    case set
    have "replacer_inv s'" unfolding set(3)
    proof (rule replacer_inv_step [OF inv rng])
      show "\<forall>e\<in>set (pq s). size_t_of (frame_id e) < replacer_size s" using inr .
      show "\<forall>e\<in>set (pq s). size_t_of (frame_id e) \<noteq> ?i \<longrightarrow> e \<in> set (pq s)" by simp
      show "\<forall>n'. Some (node\<lparr>is_evictable := True\<rparr>) = Some n' \<longrightarrow>
          (\<exists>nodea. node_store s ! ?i = Some nodea \<and> history n' = history nodea
             \<and> timestamp_added n' = timestamp_added nodea)
          \<and> (is_evictable n' \<longrightarrow> present_in_pq n')
          \<and> (present_in_pq n' \<longrightarrow>
               (\<exists>e \<in> set (pq s). size_t_of (frame_id e) = ?i
                  \<and> timestamp_added n' \<le> earliest_timestamp e
                  \<and> \<not> PQNode_less e (PQNode_new (frame_id e) (k_lru s) n')))"
        using n nok set(2) by (auto simp: node_ok_def PQNode_new_def)
    qed
    then show ?thesis by (simp add: set(3))
  next
    case unset
    have "replacer_inv s'" unfolding unset(2)
    proof (rule replacer_inv_step [OF inv rng])
      show "\<forall>e\<in>set (pq s). size_t_of (frame_id e) < replacer_size s" using inr .
      show "\<forall>e\<in>set (pq s). size_t_of (frame_id e) \<noteq> ?i \<longrightarrow> e \<in> set (pq s)" by simp
      show "\<forall>n'. Some (node\<lparr>is_evictable := False\<rparr>) = Some n' \<longrightarrow>
          (\<exists>nodea. node_store s ! ?i = Some nodea \<and> history n' = history nodea
             \<and> timestamp_added n' = timestamp_added nodea)
          \<and> (is_evictable n' \<longrightarrow> present_in_pq n')
          \<and> (present_in_pq n' \<longrightarrow>
               (\<exists>e \<in> set (pq s). size_t_of (frame_id e) = ?i
                  \<and> timestamp_added n' \<le> earliest_timestamp e
                  \<and> \<not> PQNode_less e (PQNode_new (frame_id e) (k_lru s) n')))"
        using n nok by (auto simp: node_ok_def PQNode_new_def)
    qed
    then show ?thesis by (simp add: unset(2))
  qed
qed

lemma Remove_inv:
  assumes inv: "replacer_inv s" and r: "Remove s f = Inr s'"
  shows "replacer_inv s' \<and> current_timestamp s' = current_timestamp s"
proof -
  let ?i = "size_t_of f"
  from r have rng: "?i < replacer_size s" by (auto simp: Remove_def split: if_splits)
  from inv have inr: "\<forall>e \<in> set (pq s). size_t_of (frame_id e) < replacer_size s"
    unfolding replacer_inv_def by blast
  from r rng have s': "s' = s\<lparr>node_store := (node_store s)[?i := None], pq := pq s,
      num_evictable := num_evictable s\<rparr>"
    by (auto simp: Remove_def split: option.splits if_splits)
  have "replacer_inv s'" unfolding s'
    by (rule replacer_inv_step [OF inv rng]) (use inr in auto)
  then show ?thesis by (simp add: s')
qed

text \<open>
  The backward k-distance of a node with history \<open>h\<close> at time \<open>ct\<close>: the history holds
  the last \<open>k\<close> timestamps once the frame has been accessed \<open>k\<close> times, its front is then
  the k-th last access; with fewer accesses the distance is infinite.
\<close>

definition backward_k_distance :: "LRUKReplacer \<Rightarrow> LRUKNode \<Rightarrow> enat" where
  "backward_k_distance s node =
     (if length (history node) = k_lru s then enat (current_timestamp s - hd (history node))
      else \<infinity>)"

text \<open>Slot \<open>i\<close> holds an evictable node.\<close>

definition evictable_at :: "LRUKReplacer \<Rightarrow> nat \<Rightarrow> LRUKNode \<Rightarrow> bool" where
  "evictable_at s i node \<longleftrightarrow>
     i < length (node_store s) \<and> node_store s ! i = Some node \<and> is_evictable node"

text \<open>
  Slot \<open>i\<close> holds the victim of LRU-K: an evictable node whose backward k-distance is
  the largest among the evictable nodes, with the smallest earliest timestamp among those
  of the same distance.
\<close>

definition lru_k_victim :: "LRUKReplacer \<Rightarrow> nat \<Rightarrow> bool" where
  "lru_k_victim s i \<longleftrightarrow>
     (\<exists>node. evictable_at s i node \<and>
        (\<forall>j nj. evictable_at s j nj \<longrightarrow>
           backward_k_distance s nj \<le> backward_k_distance s node
           \<and> (backward_k_distance s nj = backward_k_distance s node
                \<longrightarrow> hd (history node) \<le> hd (history nj))))"

text \<open>The nodes without their queue bookkeeping, which is all that \<open>Evict\<close> changes in a
  node that stays.\<close>

definition forget_pq :: "LRUKNode option \<Rightarrow> LRUKNode option" where
  "forget_pq = map_option (\<lambda>n. n\<lparr>present_in_pq := True\<rparr>)"

definition nodes_mod_pq :: "LRUKReplacer \<Rightarrow> LRUKNode option list" where
  "nodes_mod_pq s = map forget_pq (node_store s)"

lemma forget_pq_simps [simp]:
  "forget_pq None = None"
  "forget_pq (Some (n\<lparr>present_in_pq := b\<rparr>)) = forget_pq (Some n)"
  by (simp_all add: forget_pq_def)

lemma forget_pq_eq:
  assumes "forget_pq a = forget_pq b"
  shows "map_option history a = map_option history b"
    and "map_option is_evictable a = map_option is_evictable b"
proof -
  have "map_option history a = map_option history b
      \<and> map_option is_evictable a = map_option is_evictable b"
  proof (cases a)
    case None
    with assms show ?thesis by (cases b) (simp_all add: forget_pq_def)
  next
    case a: (Some n)
    show ?thesis
    proof (cases b)
      case None
      with assms a show ?thesis by (simp add: forget_pq_def)
    next
      case (Some m)
      with assms a have e: "n\<lparr>present_in_pq := True\<rparr> = m\<lparr>present_in_pq := True\<rparr>"
        by (simp add: forget_pq_def)
      from arg_cong [OF e, of history] arg_cong [OF e, of is_evictable] a Some
      show ?thesis by simp
    qed
  qed
  then show "map_option history a = map_option history b"
    and "map_option is_evictable a = map_option is_evictable b" by simp_all
qed

lemma set_pq_pop: "set (pq_pop xs) \<subseteq> set xs"
  using set_remove1_subset [of "pq_top xs" xs] by (simp add: pq_pop_def)

lemma in_pq_pop: "e \<in> set xs \<Longrightarrow> e \<noteq> pq_top xs \<Longrightarrow> e \<in> set (pq_pop xs)"
  by (simp add: pq_pop_def)

lemma victim_key:
  assumes nok: "node_ok s i node" and njok: "node_ok s j nj"
    and chk: "if length (history node) = k_lru s then kth_last_timestamp e = hd (history node)
       else kth_last_timestamp e = TIMESTAMP_NEG_INF \<and> earliest_timestamp e = hd (history node)"
    and le: "\<not> PQNode_less e (PQNode_new f (k_lru s) nj)"
  shows "backward_k_distance s nj \<le> backward_k_distance s node
     \<and> (backward_k_distance s nj = backward_k_distance s node \<longrightarrow> hd (history node) \<le> hd (history nj))"
proof -
  from nok have a: "0 < hd (history node)" "hd (history node) < current_timestamp s"
    unfolding node_ok_def by (auto simp: hd_in_set)
  from njok have b: "0 < hd (history nj)" "hd (history nj) < current_timestamp s"
    unfolding node_ok_def by (auto simp: hd_in_set)
  consider (ff) "length (history node) = k_lru s" "length (history nj) = k_lru s"
    | (fi) "length (history node) = k_lru s" "length (history nj) \<noteq> k_lru s"
    | (inf_fin) "length (history node) \<noteq> k_lru s" "length (history nj) = k_lru s"
    | (ii) "length (history node) \<noteq> k_lru s" "length (history nj) \<noteq> k_lru s"
    by blast
  then show ?thesis
  proof cases
    case ff
    with chk le a b show ?thesis
      by (simp add: backward_k_distance_def PQNode_less_def PQNode_new_def) linarith
  next
    case fi
    with chk le a b show ?thesis
      by (simp add: backward_k_distance_def PQNode_less_def PQNode_new_def TIMESTAMP_NEG_INF_def)
  next
    case inf_fin
    with chk le a b show ?thesis
      by (simp add: backward_k_distance_def PQNode_less_def PQNode_new_def TIMESTAMP_NEG_INF_def)
  next
    case ii
    with chk le a b show ?thesis
      by (simp add: backward_k_distance_def PQNode_less_def PQNode_new_def TIMESTAMP_NEG_INF_def)
  qed
qed

lemma Evict_body_inv:
  assumes inv: "replacer_inv s" and ne: "pq s \<noteq> []"
  shows "(\<exists>s'. Evict_body s = Continue s' \<and> replacer_inv s'
            \<and> nodes_mod_pq s' = nodes_mod_pq s \<and> k_lru s' = k_lru s
            \<and> current_timestamp s' = current_timestamp s \<and> replacer_size s' = replacer_size s
            \<and> num_evictable s' = num_evictable s
            \<and> frame_id ` set (pq s') \<subseteq> frame_id ` set (pq s))
       \<or> (\<exists>s' f. Evict_body s = Evicted s' f \<and> replacer_inv s'
            \<and> lru_k_victim s (size_t_of f)
            \<and> nodes_mod_pq s' = (nodes_mod_pq s)[size_t_of f := None] \<and> k_lru s' = k_lru s
            \<and> current_timestamp s' = current_timestamp s \<and> replacer_size s' = replacer_size s
            \<and> num_evictable s' = size_t_dec (num_evictable s)
            \<and> frame_id ` set (pq s') \<subseteq> frame_id ` set (pq s)
            \<and> f \<in> frame_id ` set (pq s))"
proof -
  let ?t = "pq_top (pq s)"
  let ?i = "size_t_of (frame_id ?t)"
  let ?q = "pq_pop (pq s)"
  from inv have len: "length (node_store s) = replacer_size s"
    and ok: "\<And>i node. i < length (node_store s) \<Longrightarrow> node_store s ! i = Some node \<Longrightarrow> node_ok s i node"
    and inr: "\<forall>e \<in> set (pq s). size_t_of (frame_id e) < replacer_size s"
    unfolding replacer_inv_def by blast+
  have mem: "?t \<in> set (pq s)" using ne by (rule pq_top_mem)
  have rng: "?i < replacer_size s" using inr mem by blast
  have q_rng: "\<forall>e \<in> set ?q. size_t_of (frame_id e) < replacer_size s"
    using inr set_pq_pop by blast
  have keep: "\<forall>e \<in> set (pq s). size_t_of (frame_id e) \<noteq> ?i \<longrightarrow> e \<in> set ?q"
    using in_pq_pop by blast
  have fr: "frame_id ` set ?q \<subseteq> frame_id ` set (pq s)" using set_pq_pop by blast
  show ?thesis
  proof (cases "node_store s ! ?i")
    case None
    have b: "Evict_body s = Continue (s\<lparr>pq := ?q\<rparr>)"
      using None rng len by (simp add: Evict_body_def Let_def)
    have eq: "s\<lparr>pq := ?q\<rparr> = s\<lparr>node_store := (node_store s)[?i := None], pq := ?q,
        num_evictable := num_evictable s\<rparr>"
      using None by (simp add: list_update_same_conv [THEN iffD2] rng len)
    have "replacer_inv (s\<lparr>pq := ?q\<rparr>)"
      unfolding eq by (rule replacer_inv_step [OF inv rng q_rng keep]) simp
    with b fr show ?thesis by (simp add: nodes_mod_pq_def)
  next
    case (Some node)
    have nok: "node_ok s ?i node" using ok [of ?i node] Some rng len by simp
    let ?fresh = "PQNode_new (frame_id ?t) (k_lru s) node"
    define outd where "outd \<longleftrightarrow> (if length (history node) = k_lru s
         then kth_last_timestamp ?t \<noteq> hd (history node)
         else kth_last_timestamp ?t \<noteq> TIMESTAMP_NEG_INF \<or> earliest_timestamp ?t \<noteq> hd (history node))"
    have body: "Evict_body s =
       (if timestamp_added node > earliest_timestamp ?t then Continue (s\<lparr>pq := ?q\<rparr>)
        else if outd then Continue (s\<lparr>pq := ?q @ [?fresh]\<rparr>)
        else if \<not> is_evictable node then
          Continue (s\<lparr>pq := ?q,
            node_store := (node_store s)[?i := Some (node\<lparr>present_in_pq := False\<rparr>)]\<rparr>)
        else Evicted (s\<lparr>pq := ?q, node_store := (node_store s)[?i := None],
           num_evictable := size_t_dec (num_evictable s)\<rparr>) (frame_id ?t))"
      using Some rng len
      by (simp add: Evict_body_def Evict_tail_def Let_def pq_emplace_def outd_def)
    consider (removed) "timestamp_added node > earliest_timestamp ?t"
      | (stale) "\<not> timestamp_added node > earliest_timestamp ?t" "outd"
      | (pinned) "\<not> timestamp_added node > earliest_timestamp ?t" "\<not> outd" "\<not> is_evictable node"
      | (victim) "\<not> timestamp_added node > earliest_timestamp ?t" "\<not> outd" "is_evictable node"
      by blast
    then show ?thesis
    proof cases
      case removed
      have eq: "s\<lparr>pq := ?q\<rparr> = s\<lparr>node_store := (node_store s)[?i := Some node], pq := ?q,
          num_evictable := num_evictable s\<rparr>"
        using Some by (simp add: list_update_same_conv [THEN iffD2] rng len)
      have "replacer_inv (s\<lparr>pq := ?q\<rparr>)"
        unfolding eq
      proof (rule replacer_inv_step [OF inv rng q_rng keep], intro allI impI)
        fix n' assume "Some node = Some n'"
        then have n': "n' = node" by simp
        have "\<exists>e \<in> set ?q. size_t_of (frame_id e) = ?i
                  \<and> timestamp_added node \<le> earliest_timestamp e
                  \<and> \<not> PQNode_less e (PQNode_new (frame_id e) (k_lru s) node)"
          if "present_in_pq node"
        proof -
          from nok that obtain e where e: "e \<in> set (pq s)" "size_t_of (frame_id e) = ?i"
            "timestamp_added node \<le> earliest_timestamp e"
            "\<not> PQNode_less e (PQNode_new (frame_id e) (k_lru s) node)"
            unfolding node_ok_def by blast
          from e(3) removed have "e \<noteq> ?t" by auto
          with e(1) have "e \<in> set ?q" by (rule in_pq_pop)
          with e show ?thesis by blast
        qed
        with nok Some show "(\<exists>nodea. node_store s ! ?i = Some nodea \<and> history n' = history nodea
             \<and> timestamp_added n' = timestamp_added nodea)
          \<and> (is_evictable n' \<longrightarrow> present_in_pq n')
          \<and> (present_in_pq n' \<longrightarrow>
               (\<exists>e \<in> set ?q. size_t_of (frame_id e) = ?i
                  \<and> timestamp_added n' \<le> earliest_timestamp e
                  \<and> \<not> PQNode_less e (PQNode_new (frame_id e) (k_lru s) n')))"
          unfolding n' node_ok_def by blast
      qed
      with removed body fr show ?thesis by (simp add: nodes_mod_pq_def)
    next
      case stale
      have eq: "s\<lparr>pq := ?q @ [?fresh]\<rparr> = s\<lparr>node_store := (node_store s)[?i := Some node],
          pq := ?q @ [?fresh], num_evictable := num_evictable s\<rparr>"
        using Some by (simp add: list_update_same_conv [THEN iffD2] rng len)
      have "replacer_inv (s\<lparr>pq := ?q @ [?fresh]\<rparr>)"
        unfolding eq
      proof (rule replacer_inv_step [OF inv rng])
        show "\<forall>e\<in>set (?q @ [?fresh]). size_t_of (frame_id e) < replacer_size s"
          using q_rng rng by (auto simp: PQNode_new_def)
        show "\<forall>e\<in>set (pq s). size_t_of (frame_id e) \<noteq> ?i \<longrightarrow> e \<in> set (?q @ [?fresh])"
          using keep by simp
        show "\<forall>n'. Some node = Some n' \<longrightarrow>
          (\<exists>nodea. node_store s ! ?i = Some nodea \<and> history n' = history nodea
             \<and> timestamp_added n' = timestamp_added nodea)
          \<and> (is_evictable n' \<longrightarrow> present_in_pq n')
          \<and> (present_in_pq n' \<longrightarrow>
               (\<exists>e \<in> set (?q @ [?fresh]). size_t_of (frame_id e) = ?i
                  \<and> timestamp_added n' \<le> earliest_timestamp e
                  \<and> \<not> PQNode_less e (PQNode_new (frame_id e) (k_lru s) n')))"
          using Some nok by (auto simp: node_ok_def PQNode_new_def PQNode_less_def)
      qed
      moreover have "frame_id ` set (?q @ [?fresh]) \<subseteq> frame_id ` set (pq s)"
        using fr mem by (auto simp: PQNode_new_def)
      ultimately show ?thesis using stale body by (simp add: nodes_mod_pq_def)
    next
      case pinned
      let ?s' = "s\<lparr>node_store := (node_store s)[?i := Some (node\<lparr>present_in_pq := False\<rparr>)],
          pq := ?q, num_evictable := num_evictable s\<rparr>"
      have eq: "s\<lparr>pq := ?q, node_store := (node_store s)[?i := Some (node\<lparr>present_in_pq := False\<rparr>)]\<rparr> = ?s'"
        by simp
      have "replacer_inv ?s'"
        by (rule replacer_inv_step [OF inv rng q_rng keep]) (use Some pinned(3) in auto)
      moreover have "nodes_mod_pq ?s' = nodes_mod_pq s"
        using Some rng len
        by (simp add: nodes_mod_pq_def map_update list_update_same_conv [THEN iffD2])
      moreover have "Evict_body s = Continue ?s'" using pinned body by simp
      ultimately show ?thesis using fr by simp
    next
      case victim
      let ?s' = "s\<lparr>node_store := (node_store s)[?i := None], pq := ?q,
          num_evictable := size_t_dec (num_evictable s)\<rparr>"
      have eq: "s\<lparr>pq := ?q, node_store := (node_store s)[?i := None],
           num_evictable := size_t_dec (num_evictable s)\<rparr> = ?s'"
        by simp
      have i: "replacer_inv ?s'"
        by (rule replacer_inv_step [OF inv rng q_rng keep]) simp
      have v: "lru_k_victim s ?i"
        unfolding lru_k_victim_def
      proof (intro exI [of _ node] conjI allI impI)
        show "evictable_at s ?i node" using Some victim(3) rng len by (simp add: evictable_at_def)
        fix j nj assume "evictable_at s j nj"
        then have j: "j < length (node_store s)" "node_store s ! j = Some nj" "is_evictable nj"
          by (auto simp: evictable_at_def)
        from ok [OF j(1,2)] have njok: "node_ok s j nj" .
        with j(3) obtain e where e: "e \<in> set (pq s)"
          "\<not> PQNode_less e (PQNode_new (frame_id e) (k_lru s) nj)"
          unfolding node_ok_def by blast
        from pq_top_least [OF e(1)] e(2)
        have "\<not> PQNode_less ?t (PQNode_new (frame_id e) (k_lru s) nj)"
          by (rule PQNode_not_less_trans)
        have chk: "if length (history node) = k_lru s then kth_last_timestamp ?t = hd (history node)
            else kth_last_timestamp ?t = TIMESTAMP_NEG_INF \<and> earliest_timestamp ?t = hd (history node)"
          using victim(2) unfolding outd_def by (simp split: if_splits)
        from victim_key [OF nok njok chk \<open>\<not> PQNode_less ?t (PQNode_new (frame_id e) (k_lru s) nj)\<close>]
        show "backward_k_distance s nj \<le> backward_k_distance s node"
          and "backward_k_distance s nj = backward_k_distance s node \<Longrightarrow> hd (history node) \<le> hd (history nj)"
          by blast+
      qed
      have n: "nodes_mod_pq ?s' = (nodes_mod_pq s)[?i := None]"
        by (simp add: nodes_mod_pq_def map_update)
      have "Evict_body s = Evicted ?s' (frame_id ?t)" using victim body by simp
      then show ?thesis using i v n fr mem by simp
    qed
  qed
qed

subsection \<open>SetEvictable on a frame without a node\<close>




subsection \<open>Remove and the size of the replacer\<close>

text \<open>
  C2: \<open>Size\<close> is the number of frames whose node exists and is evictable. \<open>Remove\<close> drops
  the node of an evictable frame and leaves \<^verbatim>\<open>num_evictable_\<close> as it was (the header asks
  for a decrement), so after \<^verbatim>\<open>RecordAccess(0); SetEvictable(0, true); Remove(0)\<close> on a new
  replacer the size is 1 and no node is left.
\<close>

theorem C2_remove_keeps_size:
  "Size (run_ops (LRUKReplacer_new 1 2) [OpRecordAccess 0, OpSetEvictable 0 True, OpRemove 0]) = 1
   \<and> evictable_count
        (run_ops (LRUKReplacer_new 1 2) [OpRecordAccess 0, OpSetEvictable 0 True, OpRemove 0]) = 0"
  by (simp add: replacer_defs)

subsection \<open>Eviction follows LRU-K\<close>

lemma evictable_at_mod_pq:
  assumes "nodes_mod_pq s' = nodes_mod_pq s"
  shows "(\<exists>n. evictable_at s' i n \<and> history n = h) = (\<exists>n. evictable_at s i n \<and> history n = h)"
proof -
  from assms have len: "length (node_store s') = length (node_store s)"
    unfolding nodes_mod_pq_def by (rule map_eq_imp_length_eq)
  show ?thesis
  proof (cases "i < length (node_store s)")
    case False
    with len show ?thesis by (simp add: evictable_at_def)
  next
    case True
    with assms len have "forget_pq (node_store s' ! i) = forget_pq (node_store s ! i)"
      unfolding nodes_mod_pq_def by (metis nth_map)
    from forget_pq_eq [OF this] True len show ?thesis
      by (cases "node_store s' ! i"; cases "node_store s ! i") (auto simp: evictable_at_def)
  qed
qed

lemma lru_k_victim_alt:
  "lru_k_victim s i \<longleftrightarrow>
     (\<exists>h. (\<exists>n. evictable_at s i n \<and> history n = h) \<and>
        (\<forall>j hj. (\<exists>n. evictable_at s j n \<and> history n = hj) \<longrightarrow>
           backward_k_distance s \<lparr>history = hj, timestamp_added = 0, is_evictable = True, present_in_pq = True\<rparr>
             \<le> backward_k_distance s \<lparr>history = h, timestamp_added = 0, is_evictable = True, present_in_pq = True\<rparr>
           \<and> (backward_k_distance s \<lparr>history = hj, timestamp_added = 0, is_evictable = True, present_in_pq = True\<rparr>
                = backward_k_distance s \<lparr>history = h, timestamp_added = 0, is_evictable = True, present_in_pq = True\<rparr>
                \<longrightarrow> hd h \<le> hd hj)))"
proof -
  have d: "backward_k_distance s n
      = backward_k_distance s \<lparr>history = history n, timestamp_added = 0, is_evictable = True, present_in_pq = True\<rparr>"
    for n by (simp add: backward_k_distance_def)
  show ?thesis
    unfolding lru_k_victim_def
  proof
    assume "\<exists>node. evictable_at s i node \<and>
        (\<forall>j nj. evictable_at s j nj \<longrightarrow>
           backward_k_distance s nj \<le> backward_k_distance s node
           \<and> (backward_k_distance s nj = backward_k_distance s node
                \<longrightarrow> hd (history node) \<le> hd (history nj)))"
    then obtain node where n: "evictable_at s i node"
      and p: "\<And>j nj. evictable_at s j nj \<Longrightarrow>
           backward_k_distance s nj \<le> backward_k_distance s node
           \<and> (backward_k_distance s nj = backward_k_distance s node
                \<longrightarrow> hd (history node) \<le> hd (history nj))" by blast
    show "\<exists>h. (\<exists>n. evictable_at s i n \<and> history n = h) \<and>
        (\<forall>j hj. (\<exists>n. evictable_at s j n \<and> history n = hj) \<longrightarrow>
           backward_k_distance s \<lparr>history = hj, timestamp_added = 0, is_evictable = True, present_in_pq = True\<rparr>
             \<le> backward_k_distance s \<lparr>history = h, timestamp_added = 0, is_evictable = True, present_in_pq = True\<rparr>
           \<and> (backward_k_distance s \<lparr>history = hj, timestamp_added = 0, is_evictable = True, present_in_pq = True\<rparr>
                = backward_k_distance s \<lparr>history = h, timestamp_added = 0, is_evictable = True, present_in_pq = True\<rparr>
                \<longrightarrow> hd h \<le> hd hj))"
    proof (intro exI [of _ "history node"] conjI allI impI)
      show "\<exists>n. evictable_at s i n \<and> history n = history node" using n by blast
    next
      fix j hj assume "\<exists>n. evictable_at s j n \<and> history n = hj"
      then obtain nj where nj: "evictable_at s j nj" "history nj = hj" by blast
      from p [OF nj(1)] d [of nj] d [of node] nj(2)
      show "backward_k_distance s \<lparr>history = hj, timestamp_added = 0, is_evictable = True, present_in_pq = True\<rparr>
             \<le> backward_k_distance s \<lparr>history = history node, timestamp_added = 0, is_evictable = True, present_in_pq = True\<rparr>"
        by simp
      assume "backward_k_distance s \<lparr>history = hj, timestamp_added = 0, is_evictable = True, present_in_pq = True\<rparr>
                = backward_k_distance s \<lparr>history = history node, timestamp_added = 0, is_evictable = True, present_in_pq = True\<rparr>"
      with p [OF nj(1)] d [of nj] d [of node] nj(2) show "hd (history node) \<le> hd hj" by simp
    qed
  next
    assume "\<exists>h. (\<exists>n. evictable_at s i n \<and> history n = h) \<and>
        (\<forall>j hj. (\<exists>n. evictable_at s j n \<and> history n = hj) \<longrightarrow>
           backward_k_distance s \<lparr>history = hj, timestamp_added = 0, is_evictable = True, present_in_pq = True\<rparr>
             \<le> backward_k_distance s \<lparr>history = h, timestamp_added = 0, is_evictable = True, present_in_pq = True\<rparr>
           \<and> (backward_k_distance s \<lparr>history = hj, timestamp_added = 0, is_evictable = True, present_in_pq = True\<rparr>
                = backward_k_distance s \<lparr>history = h, timestamp_added = 0, is_evictable = True, present_in_pq = True\<rparr>
                \<longrightarrow> hd h \<le> hd hj))"
    then obtain node where n: "evictable_at s i node"
      and p: "\<And>j hj. (\<exists>n. evictable_at s j n \<and> history n = hj) \<Longrightarrow>
           backward_k_distance s \<lparr>history = hj, timestamp_added = 0, is_evictable = True, present_in_pq = True\<rparr>
             \<le> backward_k_distance s \<lparr>history = history node, timestamp_added = 0, is_evictable = True, present_in_pq = True\<rparr>
           \<and> (backward_k_distance s \<lparr>history = hj, timestamp_added = 0, is_evictable = True, present_in_pq = True\<rparr>
                = backward_k_distance s \<lparr>history = history node, timestamp_added = 0, is_evictable = True, present_in_pq = True\<rparr>
                \<longrightarrow> hd (history node) \<le> hd hj)" by blast
    show "\<exists>node. evictable_at s i node \<and>
        (\<forall>j nj. evictable_at s j nj \<longrightarrow>
           backward_k_distance s nj \<le> backward_k_distance s node
           \<and> (backward_k_distance s nj = backward_k_distance s node
                \<longrightarrow> hd (history node) \<le> hd (history nj)))"
    proof (intro exI [of _ node] conjI allI impI)
      show "evictable_at s i node" by (rule n)
    next
      fix j nj assume e: "evictable_at s j nj"
      then have "\<exists>n. evictable_at s j n \<and> history n = history nj" by blast
      from p [OF this] d [of nj] d [of node]
      show "backward_k_distance s nj \<le> backward_k_distance s node"
        and "backward_k_distance s nj = backward_k_distance s node \<Longrightarrow> hd (history node) \<le> hd (history nj)"
        by simp_all
    qed
  qed
qed

lemma lru_k_victim_mod_pq:
  assumes "nodes_mod_pq s' = nodes_mod_pq s" "k_lru s' = k_lru s"
    "current_timestamp s' = current_timestamp s"
  shows "lru_k_victim s' i = lru_k_victim s i"
  unfolding lru_k_victim_alt evictable_at_mod_pq [OF assms(1)]
  by (simp add: backward_k_distance_def assms(2,3))

lemma no_evictable_mod_pq:
  assumes "nodes_mod_pq s' = nodes_mod_pq s"
  shows "(\<forall>i n. \<not> evictable_at s' i n) = (\<forall>i n. \<not> evictable_at s i n)"
  using evictable_at_mod_pq [OF assms] by blast

lemma evictable_has_entry:
  assumes "replacer_inv s" "evictable_at s i node"
  shows "\<exists>e \<in> set (pq s). size_t_of (frame_id e) = i
             \<and> timestamp_added node \<le> earliest_timestamp e
             \<and> \<not> PQNode_less e (PQNode_new (frame_id e) (k_lru s) node)"
proof -
  from assms have "node_ok s i node" unfolding replacer_inv_def evictable_at_def by blast
  with assms(2) show ?thesis unfolding node_ok_def evictable_at_def by blast
qed

text \<open>What \<open>Evict\<close> does in a state that satisfies the invariant.\<close>

definition evict_post :: "LRUKReplacer \<Rightarrow> LRUKReplacer \<Rightarrow> frame_id_t option \<Rightarrow> bool" where
  "evict_post s s' r \<longleftrightarrow>
     replacer_inv s' \<and> k_lru s' = k_lru s \<and> current_timestamp s' = current_timestamp s
     \<and> replacer_size s' = replacer_size s
     \<and> frame_id ` set (pq s') \<subseteq> frame_id ` set (pq s)
     \<and> (case r of
          None \<Rightarrow> nodes_mod_pq s' = nodes_mod_pq s \<and> num_evictable s' = num_evictable s
                   \<and> (\<forall>i n. \<not> evictable_at s i n)
        | Some f \<Rightarrow> lru_k_victim s (size_t_of f)
                   \<and> nodes_mod_pq s' = (nodes_mod_pq s)[size_t_of f := None]
                   \<and> num_evictable s' = size_t_dec (num_evictable s)
                   \<and> f \<in> frame_id ` set (pq s))"

lemma Evict_inv: "replacer_inv s \<Longrightarrow> \<exists>s' r. Evict s = Inr (s', r) \<and> evict_post s s' r"
proof (induction s rule: Evict.induct)
  case (1 s)
  show ?case
  proof (cases "pq s = []")
    case True
    have "\<not> evictable_at s i n" for i n
      using evictable_has_entry [OF "1.prems", of i n] True by auto
    with True "1.prems" show ?thesis by (simp add: evict_post_def)
  next
    case False
    from Evict_body_inv [OF "1.prems" False] show ?thesis
    proof (elim disjE exE conjE)
      fix s1
      assume b: "Evict_body s = Continue s1" and i1: "replacer_inv s1"
        and n: "nodes_mod_pq s1 = nodes_mod_pq s" and k: "k_lru s1 = k_lru s"
        and c: "current_timestamp s1 = current_timestamp s"
        and z: "replacer_size s1 = replacer_size s" and e: "num_evictable s1 = num_evictable s"
        and f: "frame_id ` set (pq s1) \<subseteq> frame_id ` set (pq s)"
      from "1.IH" [OF False b i1] obtain s' r where r: "Evict s1 = Inr (s', r)"
        and p: "evict_post s1 s' r" by blast
      from p f have f': "frame_id ` set (pq s') \<subseteq> frame_id ` set (pq s)"
        unfolding evict_post_def by blast
      have "evict_post s s' r"
      proof (cases r)
        case None
        with p n k c z e f' no_evictable_mod_pq [OF n] show ?thesis
          unfolding evict_post_def by simp
      next
        case (Some g)
        with p have "g \<in> frame_id ` set (pq s1)" unfolding evict_post_def by simp
        with f have g: "g \<in> frame_id ` set (pq s)" by blast
        from Some p n k c z e f' g lru_k_victim_mod_pq [OF n k c] show ?thesis
          unfolding evict_post_def by simp
      qed
      moreover have "Evict s = Inr (s', r)" using False b r by simp
      ultimately show ?thesis by blast
    next
      fix s' f
      assume b: "Evict_body s = Evicted s' f" and rest: "replacer_inv s'"
        "lru_k_victim s (size_t_of f)" "nodes_mod_pq s' = (nodes_mod_pq s)[size_t_of f := None]"
        "k_lru s' = k_lru s" "current_timestamp s' = current_timestamp s"
        "replacer_size s' = replacer_size s" "num_evictable s' = size_t_dec (num_evictable s)"
        "frame_id ` set (pq s') \<subseteq> frame_id ` set (pq s)" "f \<in> frame_id ` set (pq s)"
      have "Evict s = Inr (s', Some f)" using False b by simp
      moreover have "evict_post s s' (Some f)" using rest by (simp add: evict_post_def)
      ultimately show ?thesis by blast
    qed
  qed
qed

lemma lru_k_victim_unique:
  assumes inv: "replacer_inv s" and i: "lru_k_victim s i" and j: "lru_k_victim s j"
  shows "i = j"
proof (rule ccontr)
  assume ne: "i \<noteq> j"
  from i obtain ni where ni: "evictable_at s i ni"
    and pi: "\<And>j nj. evictable_at s j nj \<Longrightarrow> backward_k_distance s nj \<le> backward_k_distance s ni
           \<and> (backward_k_distance s nj = backward_k_distance s ni \<longrightarrow> hd (history ni) \<le> hd (history nj))"
    unfolding lru_k_victim_def by blast
  from j obtain nj where nj: "evictable_at s j nj"
    and pj: "\<And>i ni. evictable_at s i ni \<Longrightarrow> backward_k_distance s ni \<le> backward_k_distance s nj
           \<and> (backward_k_distance s ni = backward_k_distance s nj \<longrightarrow> hd (history nj) \<le> hd (history ni))"
    unfolding lru_k_victim_def by blast
  from pi [OF nj] pj [OF ni] have hd: "hd (history ni) = hd (history nj)" by auto
  from inv ni nj have "history ni \<noteq> []" "history nj \<noteq> []"
    unfolding replacer_inv_def evictable_at_def node_ok_def by blast+
  then have "hd (history ni) \<in> set (history ni)" "hd (history nj) \<in> set (history nj)" by simp_all
  with hd have "set (history ni) \<inter> set (history nj) \<noteq> {}" by auto
  moreover from inv ni nj ne have "set (history ni) \<inter> set (history nj) = {}"
    unfolding replacer_inv_def evictable_at_def by blast
  ultimately show False by contradiction
qed

lemma RecordAccess_fields:
  "RecordAccess s f = Inr s' \<Longrightarrow> replacer_size s' = replacer_size s \<and> k_lru s' = k_lru s"
  by (auto simp: RecordAccess_def Let_def split: if_splits option.splits)

lemma SetEvictable_fields:
  "SetEvictable s f b = Inr s' \<Longrightarrow> replacer_size s' = replacer_size s \<and> k_lru s' = k_lru s"
  by (auto simp: SetEvictable_def Let_def split: if_splits option.splits)

lemma Remove_fields:
  "Remove s f = Inr s' \<Longrightarrow> replacer_size s' = replacer_size s \<and> k_lru s' = k_lru s"
  by (auto simp: Remove_def Let_def split: if_splits option.splits)

lemma apply_op_inv:
  assumes inv: "replacer_inv s" and nowrap: "current_timestamp s < 2 ^ 64 - 1"
  shows "replacer_inv (apply_op s x) \<and> current_timestamp (apply_op s x) \<le> current_timestamp s + 1
     \<and> replacer_size (apply_op s x) = replacer_size s \<and> k_lru (apply_op s x) = k_lru s"
proof (cases x)
  case (OpRecordAccess f)
  show ?thesis
  proof (cases "RecordAccess s f")
    case (Inl e)
    with OpRecordAccess inv show ?thesis by simp
  next
    case (Inr s')
    from RecordAccess_inv [OF inv Inr nowrap] RecordAccess_fields [OF Inr] Inr OpRecordAccess
    show ?thesis by simp
  qed
next
  case (OpSetEvictable f b)
  show ?thesis
  proof (cases "SetEvictable s f b")
    case (Inl e)
    with OpSetEvictable inv show ?thesis by simp
  next
    case (Inr s')
    from SetEvictable_inv [OF inv Inr] SetEvictable_fields [OF Inr] Inr OpSetEvictable
    show ?thesis by simp
  qed
next
  case (OpRemove f)
  show ?thesis
  proof (cases "Remove s f")
    case (Inl e)
    with OpRemove inv show ?thesis by simp
  next
    case (Inr s')
    from Remove_inv [OF inv Inr] Remove_fields [OF Inr] Inr OpRemove
    show ?thesis by simp
  qed
next
  case OpEvict
  from Evict_inv [OF inv] obtain s' r where "Evict s = Inr (s', r)" "evict_post s s' r" by blast
  with OpEvict show ?thesis by (simp add: evict_post_def)
qed

lemma run_ops_inv:
  "replacer_inv s \<Longrightarrow> current_timestamp s + length ops < 2 ^ 64 \<Longrightarrow>
   replacer_inv (run_ops s ops) \<and> current_timestamp (run_ops s ops) \<le> current_timestamp s + length ops
   \<and> replacer_size (run_ops s ops) = replacer_size s \<and> k_lru (run_ops s ops) = k_lru s"
proof (induction ops arbitrary: s)
  case Nil
  then show ?case by (simp add: run_ops_def)
next
  case (Cons x xs)
  from Cons.prems have nowrap: "current_timestamp s < 2 ^ 64 - 1" by simp
  from apply_op_inv [OF Cons.prems(1) nowrap, of x]
  have a: "replacer_inv (apply_op s x)" "current_timestamp (apply_op s x) \<le> current_timestamp s + 1"
    "replacer_size (apply_op s x) = replacer_size s" "k_lru (apply_op s x) = k_lru s" by blast+
  from a(2) Cons.prems(2) have "current_timestamp (apply_op s x) + length xs < 2 ^ 64" by simp
  from Cons.IH [OF a(1) this] a show ?case by (simp add: run_ops_def)
qed

lemma run_ops_new_inv:
  assumes "length ops < 2 ^ 64 - 1"
  shows "replacer_inv (run_ops (LRUKReplacer_new n k) ops)"
    and "replacer_size (run_ops (LRUKReplacer_new n k) ops) = n"
    and "k_lru (run_ops (LRUKReplacer_new n k) ops) = k"
proof -
  have "current_timestamp (LRUKReplacer_new n k) + length ops < 2 ^ 64"
    using assms by (simp add: LRUKReplacer_new_def)
  from run_ops_inv [OF replacer_inv_new this]
  show "replacer_inv (run_ops (LRUKReplacer_new n k) ops)"
    and "replacer_size (run_ops (LRUKReplacer_new n k) ops) = n"
    and "k_lru (run_ops (LRUKReplacer_new n k) ops) = k"
    by (simp_all add: LRUKReplacer_new_def)
qed

text \<open>
  C1: after any sequence of calls (fewer than \<open>2 ^ 64 - 1\<close> of them, so that the
  timestamp has not wrapped around), \<open>Evict\<close> returns no frame when no node is
  evictable, and otherwise returns a frame whose slot holds the one victim of LRU-K:
  it is evictable, no evictable node has a larger backward k-distance (a node with
  fewer than \<open>k\<close> accesses has distance \<open>\<infinity>\<close>), and among the nodes of the same distance
  none has a smaller earliest timestamp.
\<close>

theorem C1_evict_returns_lru_k_victim:
  assumes "length ops < 2 ^ 64 - 1" and "s = run_ops (LRUKReplacer_new n k) ops"
  shows "if (\<exists>i node. evictable_at s i node)
         then (\<exists>s' f. Evict s = Inr (s', Some f) \<and> lru_k_victim s (size_t_of f)
                 \<and> (\<forall>j. lru_k_victim s j \<longrightarrow> j = size_t_of f))
         else (\<exists>s'. Evict s = Inr (s', None))"
proof -
  have inv: "replacer_inv s" using run_ops_new_inv(1) [OF assms(1)] assms(2) by simp
  from Evict_inv [OF inv] obtain s' r where e: "Evict s = Inr (s', r)" and p: "evict_post s s' r"
    by blast
  show ?thesis
  proof (cases r)
    case None
    with p have "\<forall>i n. \<not> evictable_at s i n" by (simp add: evict_post_def)
    then have c: "\<not> (\<exists>i node. evictable_at s i node)" by blast
    have "\<exists>s'. Evict s = Inr (s', None)" using e None by blast
    then show ?thesis unfolding if_not_P [OF c] .
  next
    case (Some f)
    with p have v: "lru_k_victim s (size_t_of f)" by (simp add: evict_post_def)
    then have ex: "\<exists>i node. evictable_at s i node" unfolding lru_k_victim_def by blast
    have u: "\<forall>j. lru_k_victim s j \<longrightarrow> j = size_t_of f"
      using lru_k_victim_unique [OF inv _ v] by blast
    have "\<exists>s' f. Evict s = Inr (s', Some f) \<and> lru_k_victim s (size_t_of f)
                 \<and> (\<forall>j. lru_k_victim s j \<longrightarrow> j = size_t_of f)"
      using e Some v u by blast
    then show ?thesis unfolding if_P [OF ex] .
  qed
qed

definition lru_k_example :: "replacer_op list" where
  "lru_k_example =
     [OpRecordAccess 0, OpRecordAccess 1, OpRecordAccess 2, OpRecordAccess 0, OpRecordAccess 1,
      OpSetEvictable 0 True, OpSetEvictable 1 True, OpSetEvictable 2 True]"

definition stale_example :: "replacer_op list" where
  "stale_example = [OpRecordAccess 0, OpSetEvictable 0 True, OpRecordAccess 0]"

theorem C1_evict_returns_lru_k_victim_witness:
  "length lru_k_example < 2 ^ 64 - 1
   \<and> (\<exists>s'. Evict (run_ops (LRUKReplacer_new 3 2) lru_k_example) = Inr (s', Some 2))
   \<and> lru_k_victim (run_ops (LRUKReplacer_new 3 2) lru_k_example) 2"
proof -
  let ?s = "run_ops (LRUKReplacer_new 3 2) lru_k_example"
  have len: "length lru_k_example < 2 ^ 64 - 1" by (simp add: lru_k_example_def)
  have ev: "\<exists>s'. Evict ?s = Inr (s', Some 2)"
    by (simp add: lru_k_example_def replacer_defs Let_def)
  have "evictable_at ?s 2
      \<lparr>history = [3], timestamp_added = 3, is_evictable = True, present_in_pq = True\<rparr>"
    by (simp add: evictable_at_def lru_k_example_def replacer_defs Let_def)
  then have ex: "\<exists>i node. evictable_at ?s i node" by blast
  from C1_evict_returns_lru_k_victim [OF len refl, of 3 2]
  have "\<exists>s' f. Evict ?s = Inr (s', Some f) \<and> lru_k_victim ?s (size_t_of f)
                 \<and> (\<forall>j. lru_k_victim ?s j \<longrightarrow> j = size_t_of f)"
    unfolding if_P [OF ex] .
  then obtain s' f where f: "Evict ?s = Inr (s', Some f)" "lru_k_victim ?s (size_t_of f)" by blast
  from ev f(1) have "f = 2" by auto
  with f(2) have "lru_k_victim ?s 2" by (simp add: size_t_of_def)
  with len ev show ?thesis by blast
qed

text \<open>
  C9, as stated, fails: after \<^verbatim>\<open>RecordAccess(0); SetEvictable(0, true); RecordAccess(0)\<close>
  with \<open>k = 2\<close> the node of frame 0 is evictable and has the history \<open>[1, 2]\<close>; the one
  entry of the queue is the snapshot \<open>(0, 1)\<close> taken at the first access, and the snapshot
  of the node's current timestamps is \<open>(1, 1)\<close>: \<open>RecordAccess\<close> on an existing node pushes
  nothing.
\<close>

theorem C9_counterexample:
  "evictable_at (run_ops (LRUKReplacer_new 1 2) stale_example) 0
     \<lparr>history = [1, 2], timestamp_added = 1, is_evictable = True, present_in_pq = True\<rparr>
   \<and> pq (run_ops (LRUKReplacer_new 1 2) stale_example)
       = [\<lparr>frame_id = 0, kth_last_timestamp = 0, earliest_timestamp = 1\<rparr>]
   \<and> PQNode_new 0 (k_lru (run_ops (LRUKReplacer_new 1 2) stale_example))
        \<lparr>history = [1, 2], timestamp_added = 1, is_evictable = True, present_in_pq = True\<rparr>
       = \<lparr>frame_id = 0, kth_last_timestamp = 1, earliest_timestamp = 1\<rparr>"
  by (simp add: evictable_at_def stale_example_def replacer_defs Let_def)

text \<open>
  C9, amended: after any sequence of calls (fewer than \<open>2 ^ 64 - 1\<close>), every evictable
  node has an entry in the queue for its slot that was pushed for this node (its
  earliest timestamp is not before the node was added) and whose snapshot is not beyond
  the node's current timestamps (it may be stale). \<open>Evict\<close> always returns; it returns no
  frame only when no node is evictable, and a frame whenever some node is evictable.
\<close>

theorem C9_evictable_has_queue_entry:
  assumes "length ops < 2 ^ 64 - 1" and "s = run_ops (LRUKReplacer_new n k) ops"
  shows "(\<forall>i node. evictable_at s i node \<longrightarrow>
            (\<exists>e \<in> set (pq s). size_t_of (frame_id e) = i
               \<and> timestamp_added node \<le> earliest_timestamp e
               \<and> \<not> PQNode_less e (PQNode_new (frame_id e) (k_lru s) node)))
     \<and> (\<exists>s' r. Evict s = Inr (s', r))
     \<and> (\<forall>s'. Evict s = Inr (s', None) \<longrightarrow> (\<forall>i node. \<not> evictable_at s i node))
     \<and> ((\<exists>i node. evictable_at s i node) \<longrightarrow> (\<exists>s' f. Evict s = Inr (s', Some f)))"
proof -
  have inv: "replacer_inv s" using run_ops_new_inv(1) [OF assms(1)] assms(2) by simp
  from Evict_inv [OF inv] obtain s' r where e: "Evict s = Inr (s', r)" and p: "evict_post s s' r"
    by blast
  have 1: "\<forall>i node. evictable_at s i node \<longrightarrow>
            (\<exists>e \<in> set (pq s). size_t_of (frame_id e) = i
               \<and> timestamp_added node \<le> earliest_timestamp e
               \<and> \<not> PQNode_less e (PQNode_new (frame_id e) (k_lru s) node))"
    using evictable_has_entry [OF inv] by blast
  have 2: "\<exists>s' r. Evict s = Inr (s', r)" using e by blast
  have 3: "\<forall>s''. Evict s = Inr (s'', None) \<longrightarrow> (\<forall>i node. \<not> evictable_at s i node)"
  proof (intro allI impI)
    fix s'' i node assume "Evict s = Inr (s'', None)"
    with e have "r = None" by simp
    with p show "\<not> evictable_at s i node" by (simp add: evict_post_def)
  qed
  have 4: "(\<exists>i node. evictable_at s i node) \<longrightarrow> (\<exists>s' f. Evict s = Inr (s', Some f))"
  proof
    assume ex: "\<exists>i node. evictable_at s i node"
    show "\<exists>s' f. Evict s = Inr (s', Some f)"
    proof (cases r)
      case None
      with p ex show ?thesis by (simp add: evict_post_def)
    next
      case (Some f)
      with e show ?thesis by blast
    qed
  qed
  from 1 2 3 4 show ?thesis by blast
qed

theorem C9_evictable_has_queue_entry_witness:
  "length stale_example < 2 ^ 64 - 1
   \<and> evictable_at (run_ops (LRUKReplacer_new 1 2) stale_example) 0
        \<lparr>history = [1, 2], timestamp_added = 1, is_evictable = True, present_in_pq = True\<rparr>
   \<and> (\<exists>e \<in> set (pq (run_ops (LRUKReplacer_new 1 2) stale_example)). size_t_of (frame_id e) = 0)
   \<and> (\<exists>s' f. Evict (run_ops (LRUKReplacer_new 1 2) stale_example) = Inr (s', Some f))"
proof -
  let ?s = "run_ops (LRUKReplacer_new 1 2) stale_example"
  let ?n = "\<lparr>history = [1, 2], timestamp_added = 1, is_evictable = True, present_in_pq = True\<rparr>"
  have len: "length stale_example < 2 ^ 64 - 1" by (simp add: stale_example_def)
  have ev: "evictable_at ?s 0 ?n"
    by (simp add: evictable_at_def stale_example_def replacer_defs Let_def)
  from C9_evictable_has_queue_entry [OF len refl, of 1 2] ev
  have "\<exists>e \<in> set (pq ?s). size_t_of (frame_id e) = 0"
    and "\<exists>s' f. Evict ?s = Inr (s', Some f)" by blast+
  with len ev show ?thesis by blast
qed

section \<open>The disk scheduler (disk\_scheduler.cpp)\<close>

text \<open>\<^verbatim>\<open>struct DiskRequest\<close> (disk\_scheduler.h): the members \<^verbatim>\<open>is_write_\<close>, \<^verbatim>\<open>data_\<close> and
  \<^verbatim>\<open>page_id_\<close>; the promise \<^verbatim>\<open>callback_\<close> is fulfilled when a worker has performed the
  request.\<close>

record DiskRequest =
  is_write :: bool
  req_data :: string
  req_page_id :: page_id_t

text \<open>\<^verbatim>\<open>DiskScheduler::ShardHash(size_t page_id)\<close>; the number of workers
  \<^verbatim>\<open>NUM_WORKERS\<close> is a constant of the header and a parameter here. The caller passes a
  \<^verbatim>\<open>page_id_t\<close>, converted to \<^verbatim>\<open>size_t\<close>.\<close>

definition ShardHash :: "nat \<Rightarrow> page_id_t \<Rightarrow> nat" where
  "ShardHash num_workers p = size_t_of p mod num_workers"

text \<open>
  Modelled from the spec: \<^verbatim>\<open>Channel<std::optional<DiskRequest>>\<close> (common/channel.h) is a
  FIFO queue: \<^verbatim>\<open>Put\<close> appends at the back, \<^verbatim>\<open>Get\<close> takes the front and waits while the
  queue is empty. A queue is the list of the values put into it, oldest first.

  \<^verbatim>\<open>DiskScheduler::StartWorkerThread\<close>, the dispatcher: it takes the requests of the
  ingress queue in order, puts each into the queue of the worker \<open>ShardHash\<close> selects, and
  stops at \<^verbatim>\<open>std::nullopt\<close>. The first argument after the number of workers is what is
  put into the ingress queue over the life of the scheduler, the second the queues of
  the workers.
\<close>

fun dispatch :: "nat \<Rightarrow> DiskRequest option list \<Rightarrow> DiskRequest option list list
    \<Rightarrow> DiskRequest option list list" where
  "dispatch n [] ws = ws"
| "dispatch n (None # rest) ws = ws"
| "dispatch n (Some r # rest) ws =
     dispatch n rest
       (ws[ShardHash n (req_page_id r) := ws ! ShardHash n (req_page_id r) @ [Some r]])"

text \<open>\<^verbatim>\<open>WorkerShard::StartWorkerThread\<close>: the requests a worker hands to the disk manager
  (\<^verbatim>\<open>WritePage\<close> or \<^verbatim>\<open>ReadPage\<close>), in order, until \<^verbatim>\<open>std::nullopt\<close>.\<close>

fun worker_run :: "DiskRequest option list \<Rightarrow> DiskRequest list" where
  "worker_run [] = []"
| "worker_run (None # rest) = []"
| "worker_run (Some r # rest) = r # worker_run rest"

text \<open>The requests scheduled before the scheduler is destroyed, in submission order.\<close>

definition submitted :: "DiskRequest option list \<Rightarrow> DiskRequest list" where
  "submitted ingress = worker_run ingress"

text \<open>
  What the disk manager observes is some interleaving of what the workers do: a list of
  pairs (worker, request) whose restriction to each worker is that worker's sequence.
\<close>

definition observation :: "nat \<Rightarrow> DiskRequest option list list \<Rightarrow> (nat \<times> DiskRequest) list \<Rightarrow> bool" where
  "observation n ws obs \<longleftrightarrow>
     list_all (\<lambda>x. fst x < n) obs
     \<and> list_all (\<lambda>i. map snd (filter (\<lambda>x. fst x = i) obs) = worker_run (ws ! i)) [0..<n]"

lemma worker_run_append_Some:
  "list_all (\<lambda>x. x \<noteq> None) q \<Longrightarrow> worker_run (q @ [Some r]) = worker_run q @ [r]"
  by (induction q rule: worker_run.induct) auto

lemma worker_run_map_Some [simp]: "worker_run (map Some rs) = rs"
  by (induction rs) auto

lemma dispatch_queues:
  assumes "0 < n" "length ws = n"
  shows "i < n \<Longrightarrow> dispatch n ingress ws ! i
      = ws ! i @ map Some (filter (\<lambda>r. ShardHash n (req_page_id r) = i) (submitted ingress))"
  using assms(2)
proof (induction n ingress ws rule: dispatch.induct)
  case (1 n ws)
  then show ?case by (simp add: submitted_def)
next
  case (2 n rest ws)
  then show ?case by (simp add: submitted_def)
next
  case (3 n r rest ws)
  have h: "ShardHash n (req_page_id r) < n"
    using 3 by (auto simp: ShardHash_def)
  show ?case
  proof (cases "ShardHash n (req_page_id r) = i")
    case True
    with 3 h show ?thesis by (simp add: submitted_def)
  next
    case False
    with 3 h show ?thesis by (simp add: submitted_def)
  qed
qed

lemma length_dispatch [simp]: "length (dispatch n ingress ws) = length ws"
  by (induction n ingress ws rule: dispatch.induct) auto

lemma filter_page_shard:
  "filter (\<lambda>r. req_page_id r = p) (filter (\<lambda>r. ShardHash n (req_page_id r) = i) rs)
     = (if i = ShardHash n p then filter (\<lambda>r. req_page_id r = p) rs else [])"
  by (induction rs) auto

text \<open>
  C8: with \<open>n\<close> workers, the queue of worker \<open>i\<close> receives exactly the submitted requests
  whose page id hashes to \<open>i\<close>, in submission order; the shard of a page is
  \<open>ShardHash n p\<close>, which is \<open>p mod n\<close> for a page id that is not negative. So all
  requests of a page \<open>p\<close> are in the queue of one worker, in submission order, no other
  worker has any, and in whatever way the workers interleave, the disk manager sees the
  requests of \<open>p\<close> in submission order.
\<close>

theorem C8_per_page_order:
  assumes n: "0 < n"
    and obs: "observation n (dispatch n ingress (replicate n [])) obs"
  shows "(\<forall>i<n. worker_run (dispatch n ingress (replicate n []) ! i)
              = filter (\<lambda>r. ShardHash n (req_page_id r) = i) (submitted ingress))
     \<and> ShardHash n p < n
     \<and> (0 \<le> p \<and> p < 2 ^ 64 \<longrightarrow> ShardHash n p = nat p mod n)
     \<and> filter (\<lambda>r. req_page_id r = p) (worker_run (dispatch n ingress (replicate n []) ! ShardHash n p))
         = filter (\<lambda>r. req_page_id r = p) (submitted ingress)
     \<and> (\<forall>i<n. i \<noteq> ShardHash n p \<longrightarrow>
           filter (\<lambda>r. req_page_id r = p) (worker_run (dispatch n ingress (replicate n []) ! i)) = [])
     \<and> map snd (filter (\<lambda>x. req_page_id (snd x) = p) obs)
         = filter (\<lambda>r. req_page_id r = p) (submitted ingress)"
proof -
  let ?ws = "dispatch n ingress (replicate n [])"
  let ?h = "ShardHash n p"
  have q: "worker_run (?ws ! i) = filter (\<lambda>r. ShardHash n (req_page_id r) = i) (submitted ingress)"
    if "i < n" for i
    using dispatch_queues [OF n, of "replicate n []" i ingress] that by simp
  have h: "?h < n" using n by (simp add: ShardHash_def)
  have m: "0 \<le> p \<and> p < 2 ^ 64 \<longrightarrow> ShardHash n p = nat p mod n"
    by (simp add: ShardHash_def size_t_of_def)
  have own: "filter (\<lambda>r. req_page_id r = p) (worker_run (?ws ! ?h))
      = filter (\<lambda>r. req_page_id r = p) (submitted ingress)"
    by (simp add: q [OF h] filter_page_shard del: filter_filter)
  have other: "filter (\<lambda>r. req_page_id r = p) (worker_run (?ws ! i)) = []" if "i < n" "i \<noteq> ?h" for i
    using that(2) by (simp add: q [OF that(1)] filter_page_shard del: filter_filter)
  have per: "map snd (filter (\<lambda>x. fst x = i) obs) = worker_run (?ws ! i)" if "i < n" for i
    using obs that by (simp add: observation_def list_all_iff)
  have inr: "fst x < n" if "x \<in> set obs" for x
    using obs that by (simp add: observation_def list_all_iff)
  have shard: "fst x = ShardHash n (req_page_id (snd x))" if x: "x \<in> set obs" for x
  proof -
    have "snd x \<in> set (map snd (filter (\<lambda>y. fst y = fst x) obs))" using x by force
    then have "snd x \<in> set (filter (\<lambda>r. ShardHash n (req_page_id r) = fst x) (submitted ingress))"
      using per [OF inr [OF x]] q [OF inr [OF x]] by simp
    then show ?thesis by simp
  qed
  have "filter (\<lambda>x. req_page_id (snd x) = p) obs
      = filter (\<lambda>x. req_page_id (snd x) = p) (filter (\<lambda>x. fst x = ?h) obs)"
    using shard by (auto intro!: filter_cong simp: )
  then have "map snd (filter (\<lambda>x. req_page_id (snd x) = p) obs)
      = filter (\<lambda>r. req_page_id r = p) (map snd (filter (\<lambda>x. fst x = ?h) obs))"
    by (simp add: filter_map comp_def)
  then have seen: "map snd (filter (\<lambda>x. req_page_id (snd x) = p) obs)
      = filter (\<lambda>r. req_page_id r = p) (submitted ingress)"
    using per [OF h] own by simp
  show ?thesis using q h m own other seen by blast
qed

definition ex_ingress :: "DiskRequest option list" where
  "ex_ingress =
     [Some \<lparr>is_write = True, req_data = ''a'', req_page_id = 1\<rparr>,
      Some \<lparr>is_write = True, req_data = ''b'', req_page_id = 2\<rparr>,
      Some \<lparr>is_write = False, req_data = ''a'', req_page_id = 1\<rparr>,
      Some \<lparr>is_write = True, req_data = ''c'', req_page_id = 5\<rparr>,
      None]"

definition ex_obs :: "(nat \<times> DiskRequest) list" where
  "ex_obs =
     [(2, \<lparr>is_write = True, req_data = ''b'', req_page_id = 2\<rparr>),
      (1, \<lparr>is_write = True, req_data = ''a'', req_page_id = 1\<rparr>),
      (1, \<lparr>is_write = False, req_data = ''a'', req_page_id = 1\<rparr>),
      (1, \<lparr>is_write = True, req_data = ''c'', req_page_id = 5\<rparr>)]"

theorem C8_per_page_order_witness:
  "observation 4 (dispatch 4 ex_ingress (replicate 4 [])) ex_obs
   \<and> map snd (filter (\<lambda>x. req_page_id (snd x) = 1) ex_obs)
       = filter (\<lambda>r. req_page_id r = 1) (submitted ex_ingress)
   \<and> map snd (filter (\<lambda>x. req_page_id (snd x) = 1) ex_obs)
       = [\<lparr>is_write = True, req_data = ''a'', req_page_id = 1\<rparr>,
          \<lparr>is_write = False, req_data = ''a'', req_page_id = 1\<rparr>]"
proof -
  have o: "observation 4 (dispatch 4 ex_ingress (replicate 4 [])) ex_obs"
    by code_simp
  have v: "map snd (filter (\<lambda>x. req_page_id (snd x) = 1) ex_obs)
       = [\<lparr>is_write = True, req_data = ''a'', req_page_id = 1\<rparr>,
          \<lparr>is_write = False, req_data = ''a'', req_page_id = 1\<rparr>]"
    by (simp add: ex_obs_def)
  from C8_per_page_order [of 4 ex_ingress ex_obs 1] o v show ?thesis by simp
qed

section \<open>The buffer pool manager (buffer\_pool\_manager.cpp)\<close>

text \<open>
  Modelled from the spec: \<^verbatim>\<open>class Page\<close> (storage/page/page.h is not among the sources).
  A frame holds the id of the resident page, the payload, the pin count and the dirty
  flag; a new frame is unassigned (\<open>INVALID_PAGE_ID\<close>), zeroed, unpinned and clean, and
  \<^verbatim>\<open>ResetMemory\<close> wipes the payload and nothing else. The pin count is a C \<^verbatim>\<open>int\<close> and
  is kept as \<open>int\<close>.
\<close>

record Page =
  page_id :: page_id_t
  data :: string
  pin_count :: int
  is_dirty :: bool

definition INVALID_PAGE_ID :: page_id_t where
  "INVALID_PAGE_ID = - 1"

definition zero_data :: "nat \<Rightarrow> string" where
  "zero_data n = replicate n (CHR 0x00)"

definition Page_new :: "nat \<Rightarrow> Page" where
  "Page_new page_size =
     \<lparr>page_id = INVALID_PAGE_ID, data = zero_data page_size, pin_count = 0, is_dirty = False\<rparr>"

definition ResetMemory :: "Page \<Rightarrow> Page" where
  "ResetMemory p = p\<lparr>data := zero_data (length (data p))\<rparr>"

text \<open>
  The members of \<^verbatim>\<open>class BufferPoolManager\<close> (its header is not among the sources; the
  members are those the functions use). \<open>page_table\<close> is the \<^verbatim>\<open>std::unordered_map\<close>,
  \<open>free_list\<close> the \<^verbatim>\<open>std::list\<close>, \<open>next_page_id\<close> the counter of \<^verbatim>\<open>AllocatePage\<close>, kept
  as an unbounded \<open>int\<close>.

  Modelled from the spec: the disk scheduler and the disk manager as the pool sees them.
  Every request the pool schedules it also waits for (\<^verbatim>\<open>BUSTUB_ASSERT(f.get(), ...)\<close>
  blocks on the future), and the worker fulfils the promise after the disk manager has
  read or written the page. \<open>disk_log\<close> is the list of the requests scheduled and
  completed, in submission order, which by \<open>C8_per_page_order\<close> is the order in which
  the disk manager sees the requests of each page; \<open>disk\<close> is what the disk manager holds
  for each page id. \<^verbatim>\<open>DeallocatePage\<close> is recorded in \<open>deallocated\<close>.
\<close>

record BufferPoolManager =
  pool_size :: nat
  pages :: "Page list"
  replacer :: LRUKReplacer
  free_list :: "frame_id_t list"
  page_table :: "page_id_t \<rightharpoonup> frame_id_t"
  next_page_id :: page_id_t
  disk_log :: "DiskRequest list"
  disk :: "page_id_t \<Rightarrow> string"
  deallocated :: "page_id_t list"

text \<open>\<^verbatim>\<open>static_cast<int>(i)\<close> of a \<^verbatim>\<open>size_t\<close>, for a 32-bit \<^verbatim>\<open>int\<close>.\<close>

definition int_of_size_t :: "nat \<Rightarrow> int" where
  "int_of_size_t i = (let m = int i mod 2 ^ 32 in if m < 2 ^ 31 then m else m - 2 ^ 32)"

text \<open>The constructor; the size of a page and the contents of the disk are parameters.\<close>

definition BufferPoolManager_new :: "nat \<Rightarrow> nat \<Rightarrow> nat \<Rightarrow> (page_id_t \<Rightarrow> string) \<Rightarrow> BufferPoolManager" where
  "BufferPoolManager_new n replacer_k page_size disk0 =
     \<lparr>pool_size = n,
      pages = replicate n (Page_new page_size),
      replacer = LRUKReplacer_new n replacer_k,
      free_list = map int_of_size_t [0..<n],
      page_table = Map.empty,
      next_page_id = 0,
      disk_log = [],
      disk = disk0,
      deallocated = []\<rparr>"

text \<open>\<^verbatim>\<open>pages_[frame_id]\<close> indexes an array of \<open>pool_size\<close> frames; outside of it the
  behaviour is undefined.\<close>

definition frame_in_pool :: "BufferPoolManager \<Rightarrow> frame_id_t \<Rightarrow> bool" where
  "frame_in_pool s f \<longleftrightarrow> 0 \<le> f \<and> nat f < length (pages s)"

subsection \<open>FlushPage(Page \&)\<close>

text \<open>The page is \<^verbatim>\<open>pages_[i]\<close>. The write is scheduled, waited for, and the dirty flag
  cleared.\<close>

definition write_request :: "Page \<Rightarrow> DiskRequest" where
  "write_request p = \<lparr>is_write = True, req_data = data p, req_page_id = page_id p\<rparr>"

definition complete_request :: "BufferPoolManager \<Rightarrow> DiskRequest \<Rightarrow> BufferPoolManager" where
  "complete_request s r =
     s\<lparr>disk_log := disk_log s @ [r],
       disk := (if is_write r then (disk s)(req_page_id r := req_data r) else disk s)\<rparr>"

definition FlushPage_frame :: "BufferPoolManager \<Rightarrow> nat \<Rightarrow> BufferPoolManager" where
  "FlushPage_frame s i =
     (let s1 = complete_request s (write_request (pages s ! i)) in
      s1\<lparr>pages := (pages s1)[i := (pages s1 ! i)\<lparr>is_dirty := False\<rparr>]\<rparr>)"

subsection \<open>FindFreeFrame\<close>

definition FindFreeFrame :: "BufferPoolManager \<Rightarrow> error + (BufferPoolManager \<times> frame_id_t option)" where
  "FindFreeFrame s =
     (case free_list s of
        f # rest \<Rightarrow> Inr (s\<lparr>free_list := rest\<rparr>, Some f)
      | [] \<Rightarrow>
          (case Evict (replacer s) of
             Inl e \<Rightarrow> Inl e
           | Inr (r', None) \<Rightarrow> Inr (s\<lparr>replacer := r'\<rparr>, None)
           | Inr (r', Some f) \<Rightarrow>
               if \<not> frame_in_pool s f then Inl UndefinedBehaviour
               else
                 (let s1 = s\<lparr>replacer := r'\<rparr>;
                      s2 = (if is_dirty (pages s1 ! nat f) then FlushPage_frame s1 (nat f) else s1);
                      s3 = s2\<lparr>page_table := (page_table s2)(page_id (pages s2 ! nat f) := None)\<rparr>
                  in Inr (s3, Some f))))"

subsection \<open>NewPage\<close>

text \<open>\<^verbatim>\<open>page_table_.emplace(key, value)\<close> inserts only when the key is absent.\<close>

definition emplace :: "('k \<rightharpoonup> 'v) \<Rightarrow> 'k \<Rightarrow> 'v \<Rightarrow> ('k \<rightharpoonup> 'v)" where
  "emplace m k v = (case m k of None \<Rightarrow> m(k \<mapsto> v) | Some old \<Rightarrow> m)"

definition AllocatePage :: "BufferPoolManager \<Rightarrow> page_id_t \<times> BufferPoolManager" where
  "AllocatePage s = (next_page_id s, s\<lparr>next_page_id := next_page_id s + 1\<rparr>)"

text \<open>\<^verbatim>\<open>replacer_->RecordAccess(f); replacer_->SetEvictable(f, false);\<close>\<close>

definition touch_and_pin :: "LRUKReplacer \<Rightarrow> frame_id_t \<Rightarrow> error + LRUKReplacer" where
  "touch_and_pin r f =
     (case RecordAccess r f of
        Inl e \<Rightarrow> Inl e
      | Inr r1 \<Rightarrow> SetEvictable r1 f False)"

text \<open>The result is the new page id and the frame of the page returned, or \<open>None\<close> for
  \<^verbatim>\<open>nullptr\<close>.\<close>

definition NewPage :: "BufferPoolManager \<Rightarrow> error + (BufferPoolManager \<times> (page_id_t \<times> frame_id_t) option)" where
  "NewPage s =
     (case FindFreeFrame s of
        Inl e \<Rightarrow> Inl e
      | Inr (s1, None) \<Rightarrow> Inr (s1, None)
      | Inr (s1, Some f) \<Rightarrow>
          (let (pid, s2) = AllocatePage s1;
               s3 = s2\<lparr>page_table := emplace (page_table s2) pid f\<rparr> in
           if \<not> frame_in_pool s3 f then Inl UndefinedBehaviour
           else
             (case touch_and_pin (replacer s3) f of
                Inl e \<Rightarrow> Inl e
              | Inr r \<Rightarrow>
                  (let page = pages s3 ! nat f;
                       page' = page\<lparr>page_id := pid, is_dirty := False, pin_count := pin_count page + 1\<rparr>
                   in Inr (s3\<lparr>replacer := r, pages := (pages s3)[nat f := page']\<rparr>, Some (pid, f))))))"

subsection \<open>FetchPage\<close>

text \<open>
  Without other threads the second lookup of the double-checked locking finds what the
  first found, so the two paths for a resident page are one. The read request carries
  the payload the disk manager delivers into the frame. The result is the frame of the
  page returned.
\<close>

definition FetchPage :: "BufferPoolManager \<Rightarrow> page_id_t \<Rightarrow> error + (BufferPoolManager \<times> frame_id_t option)" where
  "FetchPage s pid =
     (case page_table s pid of
        Some f \<Rightarrow>
          if \<not> frame_in_pool s f then Inl UndefinedBehaviour
          else
            (case touch_and_pin (replacer s) f of
               Inl e \<Rightarrow> Inl e
             | Inr r \<Rightarrow>
                 (let page = pages s ! nat f;
                      page' = page\<lparr>pin_count := pin_count page + 1\<rparr>
                  in Inr (s\<lparr>replacer := r, pages := (pages s)[nat f := page']\<rparr>, Some f)))
      | None \<Rightarrow>
          (case FindFreeFrame s of
             Inl e \<Rightarrow> Inl e
           | Inr (s1, None) \<Rightarrow> Inr (s1, None)
           | Inr (s1, Some f) \<Rightarrow>
               (let s2 = s1\<lparr>page_table := emplace (page_table s1) pid f\<rparr> in
                if \<not> frame_in_pool s2 f then Inl UndefinedBehaviour
                else
                  (let s3 = complete_request s2
                              \<lparr>is_write = False, req_data = disk s2 pid, req_page_id = pid\<rparr>;
                       s4 = s3\<lparr>pages := (pages s3)[nat f := (pages s3 ! nat f)\<lparr>data := disk s3 pid\<rparr>]\<rparr>
                   in
                   (case touch_and_pin (replacer s4) f of
                      Inl e \<Rightarrow> Inl e
                    | Inr r \<Rightarrow>
                        (let page = pages s4 ! nat f;
                             page' = page\<lparr>pin_count := pin_count page + 1, page_id := pid, is_dirty := False\<rparr>
                         in Inr (s4\<lparr>replacer := r, pages := (pages s4)[nat f := page']\<rparr>, Some f)))))))"

subsection \<open>UnpinPage\<close>

definition UnpinPage :: "BufferPoolManager \<Rightarrow> page_id_t \<Rightarrow> bool \<Rightarrow> error + (BufferPoolManager \<times> bool)" where
  "UnpinPage s pid dirty =
     (case page_table s pid of
        None \<Rightarrow> Inr (s, False)
      | Some f \<Rightarrow>
          if \<not> frame_in_pool s f then Inl UndefinedBehaviour
          else
            (let page = pages s ! nat f in
             if pin_count page \<le> 0 then Inr (s, False)
             else
               (let page' = page\<lparr>is_dirty := (is_dirty page \<or> dirty), pin_count := pin_count page - 1\<rparr>;
                    s1 = s\<lparr>pages := (pages s)[nat f := page']\<rparr> in
                if pin_count page' = 0 then
                  (case SetEvictable (replacer s1) f True of
                     Inl e \<Rightarrow> Inl e
                   | Inr r \<Rightarrow> Inr (s1\<lparr>replacer := r\<rparr>, True))
                else Inr (s1, True))))"

subsection \<open>FlushPage(page\_id\_t) and FlushAllPages\<close>

definition FlushPage :: "BufferPoolManager \<Rightarrow> page_id_t \<Rightarrow> error + (BufferPoolManager \<times> bool)" where
  "FlushPage s pid =
     (case page_table s pid of
        None \<Rightarrow> Inr (s, False)
      | Some f \<Rightarrow>
          if \<not> frame_in_pool s f then Inl UndefinedBehaviour
          else Inr (FlushPage_frame s (nat f), True))"

text \<open>The second loop of \<^verbatim>\<open>FlushAllPages\<close>, for the frames \<open>is\<close> and the requests the first
  loop has scheduled for them: wait for the write, then clear the dirty flag.\<close>

fun await_all :: "BufferPoolManager \<Rightarrow> (nat \<times> DiskRequest) list \<Rightarrow> BufferPoolManager" where
  "await_all s [] = s"
| "await_all s ((i, r) # rest) =
     await_all ((complete_request s r)\<lparr>pages := (pages s)[i := (pages s ! i)\<lparr>is_dirty := False\<rparr>]\<rparr>) rest"

definition FlushAllPages :: "BufferPoolManager \<Rightarrow> error + BufferPoolManager" where
  "FlushAllPages s =
     (if length (pages s) < pool_size s then Inl UndefinedBehaviour
      else
        (let requests = map (\<lambda>i. write_request (pages s ! i)) [0..<pool_size s] in
         Inr (await_all s (zip [0..<pool_size s] requests))))"

subsection \<open>DeletePage\<close>

definition DeletePage :: "BufferPoolManager \<Rightarrow> page_id_t \<Rightarrow> error + (BufferPoolManager \<times> bool)" where
  "DeletePage s pid =
     (case page_table s pid of
        None \<Rightarrow> Inr (s, True)
      | Some f \<Rightarrow>
          if \<not> frame_in_pool s f then Inl UndefinedBehaviour
          else
            (let page = pages s ! nat f in
             if page_id page \<noteq> pid then Inr (s, True)
             else if pin_count page > 0 then Inr (s, False)
             else
               (let s1 = s\<lparr>page_table := (page_table s)(pid := None)\<rparr> in
                case Remove (replacer s1) f of
                  Inl e \<Rightarrow> Inl e
                | Inr r \<Rightarrow>
                    Inr (s1\<lparr>replacer := r,
                            free_list := free_list s1 @ [f],
                            pages := (pages s1)[nat f := ResetMemory page],
                            deallocated := deallocated s1 @ [pid]\<rparr>, True))))"

subsection \<open>Sequences of calls on a pool\<close>

text \<open>A client that holds a pinned page may write into its payload (\<open>OpWriteData\<close>, by
  frame).\<close>

datatype bpm_op =
  OpNewPage
  | OpFetchPage page_id_t
  | OpUnpinPage page_id_t bool
  | OpFlushPage page_id_t
  | OpFlushAllPages
  | OpDeletePage page_id_t
  | OpWriteData nat string

definition write_data :: "BufferPoolManager \<Rightarrow> nat \<Rightarrow> string \<Rightarrow> BufferPoolManager" where
  "write_data s i d =
     (if i < length (pages s) then s\<lparr>pages := (pages s)[i := (pages s ! i)\<lparr>data := d\<rparr>]\<rparr> else s)"

fun bpm_apply :: "BufferPoolManager \<Rightarrow> bpm_op \<Rightarrow> error + BufferPoolManager" where
  "bpm_apply s OpNewPage = map_sum id fst (NewPage s)"
| "bpm_apply s (OpFetchPage p) = map_sum id fst (FetchPage s p)"
| "bpm_apply s (OpUnpinPage p d) = map_sum id fst (UnpinPage s p d)"
| "bpm_apply s (OpFlushPage p) = map_sum id fst (FlushPage s p)"
| "bpm_apply s OpFlushAllPages = FlushAllPages s"
| "bpm_apply s (OpDeletePage p) = map_sum id fst (DeletePage s p)"
| "bpm_apply s (OpWriteData i d) = Inr (write_data s i d)"

fun bpm_run :: "BufferPoolManager \<Rightarrow> bpm_op list \<Rightarrow> error + BufferPoolManager" where
  "bpm_run s [] = Inr s"
| "bpm_run s (x # xs) = (case bpm_apply s x of Inl e \<Rightarrow> Inl e | Inr s' \<Rightarrow> bpm_run s' xs)"

lemmas bpm_defs =
  BufferPoolManager_new_def Page_new_def INVALID_PAGE_ID_def zero_data_def ResetMemory_def
  int_of_size_t_def frame_in_pool_def write_request_def complete_request_def
  FlushPage_frame_def FindFreeFrame_def emplace_def AllocatePage_def touch_and_pin_def
  NewPage_def FetchPage_def UnpinPage_def FlushPage_def FlushAllPages_def DeletePage_def
  write_data_def

subsection \<open>What the pool needs of the replacer\<close>

text \<open>For each slot, whether it has a node and whether the node is evictable.\<close>

definition ev_view :: "LRUKReplacer \<Rightarrow> bool option list" where
  "ev_view r = map (map_option is_evictable) (node_store r)"

lemma length_ev_view [simp]: "length (ev_view r) = length (node_store r)"
  by (simp add: ev_view_def)

lemma ev_view_nth:
  "i < length (node_store r) \<Longrightarrow> ev_view r ! i = map_option is_evictable (node_store r ! i)"
  by (simp add: ev_view_def)

lemma ev_view_mod_pq: "ev_view r = map (map_option is_evictable) (nodes_mod_pq r)"
proof -
  have "map_option is_evictable (forget_pq a) = map_option is_evictable a" for a
    by (cases a) (simp_all add: forget_pq_def)
  then show ?thesis by (simp add: ev_view_def nodes_mod_pq_def comp_def)
qed

lemma RecordAccess_effect:
  assumes "size_t_of f < replacer_size r" "length (node_store r) = replacer_size r"
  shows "\<exists>r'. RecordAccess r f = Inr r'
     \<and> ev_view r' = (ev_view r)[size_t_of f :=
          Some (case ev_view r ! size_t_of f of None \<Rightarrow> False | Some b \<Rightarrow> b)]
     \<and> frame_id ` set (pq r') \<subseteq> insert f (frame_id ` set (pq r))"
proof (cases "node_store r ! size_t_of f")
  case None
  with assms show ?thesis
    by (simp add: RecordAccess_def Let_def ev_view_def map_update LRUKNode_new_def pq_emplace_def
        PQNode_new_def)
next
  case (Some node)
  with assms show ?thesis
    by (auto simp: RecordAccess_def Let_def ev_view_def map_update)
qed

lemma SetEvictable_effect:
  assumes "size_t_of f < replacer_size r" "length (node_store r) = replacer_size r"
    and "ev_view r ! size_t_of f \<noteq> None"
  shows "\<exists>r'. SetEvictable r f b = Inr r'
     \<and> ev_view r' = (ev_view r)[size_t_of f := Some b]
     \<and> frame_id ` set (pq r') \<subseteq> insert f (frame_id ` set (pq r))"
proof -
  from assms obtain node where n: "node_store r ! size_t_of f = Some node"
    by (auto simp: ev_view_nth)
  show ?thesis
  proof (cases "is_evictable node = b")
    case True
    have "(ev_view r)[size_t_of f := Some b] = ev_view r"
      using True n assms(1,2) by (simp add: list_update_same_conv ev_view_nth)
    with True n assms show ?thesis by (auto simp: SetEvictable_def)
  next
    case False
    with n assms show ?thesis
      by (auto simp: SetEvictable_def Let_def ev_view_def map_update pq_emplace_def PQNode_new_def)
  qed
qed

lemma touch_and_pin_effect:
  assumes rng: "size_t_of f < replacer_size r" and len: "length (node_store r) = replacer_size r"
    and inv: "replacer_inv r" and nowrap: "current_timestamp r < 2 ^ 64 - 1"
  shows "\<exists>r'. touch_and_pin r f = Inr r'
     \<and> ev_view r' = (ev_view r)[size_t_of f := Some False]
     \<and> frame_id ` set (pq r') \<subseteq> insert f (frame_id ` set (pq r))
     \<and> replacer_inv r' \<and> replacer_size r' = replacer_size r
     \<and> current_timestamp r' = current_timestamp r + 1"
proof -
  from RecordAccess_effect [OF rng len] obtain r1 where r1: "RecordAccess r f = Inr r1"
    and v1: "ev_view r1 = (ev_view r)[size_t_of f :=
          Some (case ev_view r ! size_t_of f of None \<Rightarrow> False | Some b \<Rightarrow> b)]"
    and q1: "frame_id ` set (pq r1) \<subseteq> insert f (frame_id ` set (pq r))" by blast
  from RecordAccess_inv [OF inv r1 nowrap] have i1: "replacer_inv r1"
    and c1: "current_timestamp r1 = current_timestamp r + 1" by blast+
  from RecordAccess_fields [OF r1] have z1: "replacer_size r1 = replacer_size r" by blast
  from i1 have l1: "length (node_store r1) = replacer_size r1" unfolding replacer_inv_def by blast
  have "ev_view r1 ! size_t_of f \<noteq> None" using v1 rng len by simp
  from SetEvictable_effect [OF _ l1 this, of False] rng z1
  obtain r2 where r2: "SetEvictable r1 f False = Inr r2"
    and v2: "ev_view r2 = (ev_view r1)[size_t_of f := Some False]"
    and q2: "frame_id ` set (pq r2) \<subseteq> insert f (frame_id ` set (pq r1))" by auto
  from SetEvictable_inv [OF i1 r2] have i2: "replacer_inv r2"
    and c2: "current_timestamp r2 = current_timestamp r1" by blast+
  from SetEvictable_fields [OF r2] have z2: "replacer_size r2 = replacer_size r1" by blast
  have "touch_and_pin r f = Inr r2" using r1 r2 by (simp add: touch_and_pin_def)
  moreover have "ev_view r2 = (ev_view r)[size_t_of f := Some False]" using v1 v2 by simp
  moreover have "frame_id ` set (pq r2) \<subseteq> insert f (frame_id ` set (pq r))" using q1 q2 by blast
  ultimately show ?thesis using i2 c1 c2 z1 z2 by simp
qed

lemma Remove_effect:
  assumes "size_t_of f < replacer_size r" "length (node_store r) = replacer_size r"
    and "ev_view r ! size_t_of f = Some True"
  shows "\<exists>r'. Remove r f = Inr r' \<and> ev_view r' = (ev_view r)[size_t_of f := None]
     \<and> pq r' = pq r \<and> node_store r' = (node_store r)[size_t_of f := None]"
proof -
  from assms obtain node where "node_store r ! size_t_of f = Some node" "is_evictable node"
    by (auto simp: ev_view_nth)
  with assms show ?thesis by (simp add: Remove_def ev_view_def map_update)
qed

lemma Evict_effect:
  assumes inv: "replacer_inv r"
  shows "\<exists>r' x. Evict r = Inr (r', x) \<and> replacer_inv r'
     \<and> replacer_size r' = replacer_size r \<and> current_timestamp r' = current_timestamp r
     \<and> frame_id ` set (pq r') \<subseteq> frame_id ` set (pq r)
     \<and> (case x of
          None \<Rightarrow> ev_view r' = ev_view r \<and> (\<forall>i < length (node_store r). ev_view r ! i \<noteq> Some True)
        | Some f \<Rightarrow> f \<in> frame_id ` set (pq r) \<and> size_t_of f < replacer_size r
            \<and> ev_view r ! size_t_of f = Some True
            \<and> ev_view r' = (ev_view r)[size_t_of f := None])"
proof -
  from Evict_inv [OF inv] obtain r' x where e: "Evict r = Inr (r', x)" and p: "evict_post r r' x"
    by blast
  from inv have len: "length (node_store r) = replacer_size r" unfolding replacer_inv_def by blast
  show ?thesis
  proof (cases x)
    case None
    with p have n: "nodes_mod_pq r' = nodes_mod_pq r" and no: "\<forall>i n. \<not> evictable_at r i n"
      by (simp_all add: evict_post_def)
    have "ev_view r ! i \<noteq> Some True" if "i < length (node_store r)" for i
      using no that by (cases "node_store r ! i") (auto simp: ev_view_nth evictable_at_def)
    moreover have "ev_view r' = ev_view r" using n by (simp add: ev_view_mod_pq)
    ultimately show ?thesis using e p None by (simp add: evict_post_def)
  next
    case (Some f)
    with p have n: "nodes_mod_pq r' = (nodes_mod_pq r)[size_t_of f := None]"
      and v: "lru_k_victim r (size_t_of f)" and m: "f \<in> frame_id ` set (pq r)"
      by (simp_all add: evict_post_def)
    from v obtain node where "evictable_at r (size_t_of f) node" unfolding lru_k_victim_def by blast
    then have a: "size_t_of f < replacer_size r" "ev_view r ! size_t_of f = Some True"
      using len by (auto simp: evictable_at_def ev_view_nth)
    have "ev_view r' = (ev_view r)[size_t_of f := None]"
      using n by (simp add: ev_view_mod_pq map_update)
    with a m e p Some show ?thesis by (simp add: evict_post_def)
  qed
qed

end
